theory Spec2Isabelle
  imports Main "HOL-Library.AList"
begin

section \<open>Python values, dictionaries and errors\<close>

text \<open>
  Attribute values of nodes and edges are the primitive values the generator is
  meant for. A dictionary is an association list in insertion order, as Python
  iterates it; keys are strings (\<open>Dict[str, Any]\<close> in the source).
\<close>

datatype pyval = PStr string | PInt int | PBool bool | PNone | PList "pyval list"

type_synonym pydict = "(string \<times> pyval) list"

datatype pyerror =
    ZeroDivisionError
  | KeyError
  | IndexError
  | DatabaseError string
  | OtherError string

text \<open>\<open>d.get(k, default)\<close>\<close>

definition dict_get :: "pydict \<Rightarrow> string \<Rightarrow> pyval \<Rightarrow> pyval" where
  "dict_get d k dflt = (case map_of d k of None \<Rightarrow> dflt | Some v \<Rightarrow> v)"

text \<open>\<open>k in d\<close>\<close>

definition dict_contains :: "pydict \<Rightarrow> string \<Rightarrow> bool" where
  "dict_contains d k = (map_of d k \<noteq> None)"

text \<open>\<open>d[k] = v\<close>: replaces the value in place, or appends a new last entry.\<close>

definition dict_setitem :: "pydict \<Rightarrow> string \<Rightarrow> pyval \<Rightarrow> pydict" where
  "dict_setitem d k v = AList.update k v d"

text \<open>\<open>d.pop(k, None)\<close>, the returned value dropped.\<close>

definition dict_pop :: "pydict \<Rightarrow> string \<Rightarrow> pydict" where
  "dict_pop d k = AList.delete k d"

text \<open>Python's \<open>str\<close> on an integer: decimal digits, a minus sign when negative.\<close>

fun str_nat :: "nat \<Rightarrow> string" where
  "str_nat n =
     (if n < 10 then [''0123456789'' ! n]
      else str_nat (n div 10) @ [''0123456789'' ! (n mod 10)])"

declare str_nat.simps [simp del]

definition str_int :: "int \<Rightarrow> string" where
  "str_int i = (if i < 0 then ''-'' @ str_nat (nat (- i)) else str_nat (nat i))"

text \<open>\<open>xs[a:b]\<close> for non-negative \<open>a\<close> and \<open>b\<close>: clipped at the end of the list,
  empty when \<open>b \<le> a\<close>.\<close>

definition py_slice :: "'a list \<Rightarrow> nat \<Rightarrow> nat \<Rightarrow> 'a list" where
  "py_slice xs a b = take (b - a) (drop a xs)"

section \<open>The constants of \<open>NetworkXGraphConstants\<close>\<close>

definition NX_LABELS :: string where "NX_LABELS = ''labels''"
definition NX_TYPE :: string where "NX_TYPE = ''type''"
definition NX_ID :: string where "NX_ID = ''id''"

section \<open>The graph\<close>

text \<open>
  The graph collaborator: nodes in iteration order, each an identifier with its
  attribute dictionary, and edges in iteration order, each a pair of endpoint
  identifiers with its attribute dictionary. Node identifiers are integers, as the
  signatures of \<open>_create_node\<close> and \<open>_create_edge\<close> have them.
\<close>

record graph =
  nodes :: "(int \<times> pydict) list"
  edges :: "(int \<times> int \<times> pydict) list"

section \<open>Statement generation\<close>

text \<open>
  \<open>to_cypher_labels\<close> and \<open>to_cypher_properties\<close> live in \<open>gqlalchemy.utilities\<close>;
  the generator takes them as parameters \<open>enc_l\<close> and \<open>enc_p\<close>, total on the
  values of \<open>pyval\<close>. Every function returns, next to its result, the dictionary or
  graph as the call leaves it, since the source updates the caller's dictionaries in
  place.
\<close>

text \<open>Lines 95 and 96 of \<open>_create_node\<close>, and the dictionary of line 98.\<close>

definition properties_with_id :: "int \<Rightarrow> pydict \<Rightarrow> pydict" where
  "properties_with_id nx_id properties =
     (if \<not> dict_contains properties ''id''
      then dict_setitem properties ''id'' (PInt nx_id)
      else properties)"

definition properties_without_labels :: "pydict \<Rightarrow> pydict" where
  "properties_without_labels properties = filter (\<lambda>(k, v). k \<noteq> NX_LABELS) properties"

definition create_node ::
  "(pyval \<Rightarrow> string) \<Rightarrow> (pydict \<Rightarrow> string) \<Rightarrow> int \<Rightarrow> pydict \<Rightarrow> string \<times> pydict" where
  "create_node enc_l enc_p nx_id properties0 =
     (let properties = properties_with_id nx_id properties0;
          labels_str = enc_l (dict_get properties NX_LABELS (PStr ''''));
          properties_str = enc_p (properties_without_labels properties)
      in (''CREATE ('' @ labels_str @ '' '' @ properties_str @ '');'', properties))"

definition create_edge ::
  "(pyval \<Rightarrow> string) \<Rightarrow> (pydict \<Rightarrow> string) \<Rightarrow> int \<Rightarrow> int \<Rightarrow> pyval \<Rightarrow> pyval \<Rightarrow> pydict
     \<Rightarrow> string \<times> pydict" where
  "create_edge enc_l enc_p from_id to_id from_label to_label properties0 =
     (let edge_type = enc_l (dict_get properties0 NX_TYPE (PStr ''TO''));
          properties = dict_pop properties0 NX_TYPE;
          properties_str = enc_p properties;
          from_label_str = enc_l from_label;
          to_label_str = enc_l to_label
      in (''MATCH (n'' @ from_label_str @ '' {id: '' @ str_int from_id @ ''}), (m''
            @ to_label_str @ '' {id: '' @ str_int to_id @ ''}) CREATE (n)-['' @ edge_type
            @ '' '' @ properties_str @ '']->(m);'',
          properties))"

text \<open>The loop of \<open>_nx_nodes_to_cypher\<close>, run to its end.\<close>

fun nodes_loop ::
  "(pyval \<Rightarrow> string) \<Rightarrow> (pydict \<Rightarrow> string) \<Rightarrow> (int \<times> pydict) list
     \<Rightarrow> string list \<times> (int \<times> pydict) list" where
  "nodes_loop enc_l enc_p [] = ([], [])"
| "nodes_loop enc_l enc_p ((nx_id, data) # rest) =
     (let (stmt, data') = create_node enc_l enc_p nx_id data;
          (stmts, rest') = nodes_loop enc_l enc_p rest
      in (stmt # stmts, (nx_id, data') # rest'))"

definition nx_nodes_to_cypher ::
  "(pyval \<Rightarrow> string) \<Rightarrow> (pydict \<Rightarrow> string) \<Rightarrow> graph \<Rightarrow> string list \<times> graph" where
  "nx_nodes_to_cypher enc_l enc_p g =
     (let (stmts, ns) = nodes_loop enc_l enc_p (nodes g) in (stmts, g\<lparr>nodes := ns\<rparr>))"

text \<open>
  The loop of \<open>_nx_edges_to_cypher\<close>, run to its end. \<open>graph.nodes[n]\<close> raises
  \<open>KeyError\<close> for an identifier that is no node of the graph; the result is then
  the error alone, without the edge dictionaries changed up to there.
\<close>

fun edges_loop ::
  "(pyval \<Rightarrow> string) \<Rightarrow> (pydict \<Rightarrow> string) \<Rightarrow> (int \<times> pydict) list \<Rightarrow> (int \<times> int \<times> pydict) list
     \<Rightarrow> pyerror + string list \<times> (int \<times> int \<times> pydict) list" where
  "edges_loop enc_l enc_p ns [] = Inr ([], [])"
| "edges_loop enc_l enc_p ns ((n1, n2, data) # rest) =
     (case map_of ns n1 of
        None \<Rightarrow> Inl KeyError
      | Some d1 \<Rightarrow>
         (case map_of ns n2 of
            None \<Rightarrow> Inl KeyError
          | Some d2 \<Rightarrow>
             (let from_label = dict_get d1 NX_LABELS (PStr '''');
                  to_label = dict_get d2 NX_LABELS (PStr '''');
                  (stmt, data') = create_edge enc_l enc_p n1 n2 from_label to_label data
              in (case edges_loop enc_l enc_p ns rest of
                    Inl e \<Rightarrow> Inl e
                  | Inr (stmts, rest') \<Rightarrow> Inr (stmt # stmts, (n1, n2, data') # rest')))))"

definition nx_edges_to_cypher ::
  "(pyval \<Rightarrow> string) \<Rightarrow> (pydict \<Rightarrow> string) \<Rightarrow> graph \<Rightarrow> pyerror + string list \<times> graph" where
  "nx_edges_to_cypher enc_l enc_p g =
     (case edges_loop enc_l enc_p (nodes g) (edges g) of
        Inl e \<Rightarrow> Inl e
      | Inr (stmts, es) \<Rightarrow> Inr (stmts, g\<lparr>edges := es\<rparr>))"

text \<open>\<open>nx_to_cypher\<close>, consumed to its end: the node statements, then the edge statements.\<close>

definition nx_to_cypher ::
  "(pyval \<Rightarrow> string) \<Rightarrow> (pydict \<Rightarrow> string) \<Rightarrow> graph \<Rightarrow> pyerror + string list \<times> graph" where
  "nx_to_cypher enc_l enc_p g =
     (let (ns, g1) = nx_nodes_to_cypher enc_l enc_p g
      in (case nx_edges_to_cypher enc_l enc_p g1 of
            Inl e \<Rightarrow> Inl e
          | Inr (es, g2) \<Rightarrow> Inr (ns @ es, g2)))"

section \<open>Partitioning\<close>

text \<open>
  Lines 45 to 48 of \<open>nx_graph_to_memgraph_parallel\<close>: the chunk size by integer
  division, which raises for no worker, and one slice per worker.
\<close>

definition chunk_size :: "'a list \<Rightarrow> nat \<Rightarrow> pyerror + nat" where
  "chunk_size queries num_of_processes =
     (if num_of_processes = 0 then Inl ZeroDivisionError
      else Inr (length queries div num_of_processes))"

definition make_chunks :: "'a list \<Rightarrow> nat \<Rightarrow> pyerror + 'a list list" where
  "make_chunks queries num_of_processes =
     (case chunk_size queries num_of_processes of
        Inl e \<Rightarrow> Inl e
      | Inr cs \<Rightarrow>
          Inr (map (\<lambda>i. py_slice queries (i * cs) (cs * (i + 1))) [0..<num_of_processes]))"

section \<open>The per-worker loader\<close>

text \<open>
  The database collaborator \<open>mgclient\<close>, over a database state \<open>'db\<close>. Each
  operation returns the exception it raises, if any, and the new database state.
  \<open>execute\<close> stands for the three calls \<open>conn.cursor()\<close>, \<open>cursor.execute(query)\<close>
  and \<open>cursor.fetchall()\<close> of one iteration: it raises what the first failing one
  raises.
\<close>

record 'db mgclient =
  connect :: "string \<Rightarrow> int \<Rightarrow> 'db \<Rightarrow> pyerror option \<times> 'db"
  execute :: "string \<Rightarrow> 'db \<Rightarrow> pyerror option \<times> 'db"
  commit :: "'db \<Rightarrow> pyerror option \<times> 'db"

text \<open>What a worker does that can be observed, in the order it does it.\<close>

datatype wevent = Connect string int | Execute string | Commit | Warning string

text \<open>How one iteration of the \<open>while\<close> loop ends.\<close>

datatype flow = Continue "string list" | Break | Raise pyerror

text \<open>
  Lines 65 to 76, one iteration. \<open>queries.pop()\<close> takes the last element of the
  list and raises \<open>IndexError\<close> on an empty list; \<open>queries.append(query)\<close> adds
  at the end. \<open>conn.commit()\<close> is outside the \<open>try\<close>: what it raises leaves the
  function.
\<close>

definition loop_body ::
  "'db mgclient \<Rightarrow> string list \<Rightarrow> 'db \<Rightarrow> flow \<times> 'db \<times> wevent list" where
  "loop_body c queries0 db0 =
     (if queries0 = [] then (Break, db0, [])
      else
        (let query = last queries0;
             queries = butlast queries0;
             (r, db1) = execute c query db0
         in (case r of
               None \<Rightarrow>
                 (case commit c db1 of
                    (None, db2) \<Rightarrow> (Continue queries, db2, [Execute query, Commit])
                  | (Some e, db2) \<Rightarrow> (Raise e, db2, [Execute query, Commit]))
             | Some e \<Rightarrow>
                 (case e of
                    IndexError \<Rightarrow> (Break, db1, [Execute query])
                  | DatabaseError m \<Rightarrow>
                      (Continue (queries @ [query]), db1,
                       [Execute query, Warning (''Ignoring database error: '' @ m)])
                  | _ \<Rightarrow> (Raise e, db1, [Execute query])))))"

text \<open>
  The \<open>while\<close> loop of \<open>_insert_queries\<close>. It has no bound on its iterations, so
  the result is an option: \<open>None\<close> is a loop that never ends. A result carries
  the exception that left the function, if any, the database and the log.
\<close>

partial_function (option) insert_loop ::
  "'db mgclient \<Rightarrow> string list \<Rightarrow> 'db \<Rightarrow> wevent list
     \<Rightarrow> (pyerror option \<times> 'db \<times> wevent list) option" where
  "insert_loop c queries db0 log =
     (if length queries > 0 then
        (case loop_body c queries db0 of
           (Continue queries', db1, evs) \<Rightarrow> insert_loop c queries' db1 (log @ evs)
         | (Break, db1, evs) \<Rightarrow> Some (None, db1, log @ evs)
         | (Raise e, db1, evs) \<Rightarrow> Some (Some e, db1, log @ evs))
      else Some (None, db0, log))"

definition insert_queries ::
  "'db mgclient \<Rightarrow> string list \<Rightarrow> string \<Rightarrow> int \<Rightarrow> 'db
     \<Rightarrow> (pyerror option \<times> 'db \<times> wevent list) option" where
  "insert_queries c queries host port db0 =
     (case connect c host port db0 of
        (Some e, db1) \<Rightarrow> Some (Some e, db1, [Connect host port])
      | (None, db1) \<Rightarrow> insert_loop c queries db1 [Connect host port])"

section \<open>The parallel loader\<close>

text \<open>
  \<open>nx_graph_to_memgraph_parallel\<close> runs one process per chunk. The processes of a
  phase run at the same time, against one database; the model is a state of the
  whole system and a step function that gives the turn either to the calling
  process (the orchestrator) or to one worker process. A run is a schedule, a list
  of turns, folded over the state; every interleaving is some schedule. A turn
  given to a process that cannot move (a process not yet started or already over,
  a \<open>join\<close> on a process still running) leaves the state as it is.
\<close>

datatype phase = NodePhase | EdgePhase

text \<open>A worker process: created, started but not yet connected, in its loop, or over
  (with the exception that ended it, if any).\<close>

datatype proc =
    Created "string list"
  | Connecting "string list"
  | Looping "string list"
  | Exited "pyerror option"

text \<open>Where the orchestrator stands: at the head of the body of the \<open>for\<close> over the
  two generators (line 44), at the head of the loop of \<open>p.start()\<close> or of the loop of
  \<open>p.join()\<close> with the index of the next process, or out of the function.\<close>

datatype orch =
    AtPhase phase
  | Starting phase nat
  | Joining phase nat
  | Returned
  | Raised pyerror

datatype event =
    Partitioned phase "string list" "string list list"
  | Started phase nat
  | Worker phase nat wevent
  | Terminated phase nat
  | Joined phase nat


record 'db setting =
  labels_encoder :: "pyval \<Rightarrow> string"
  properties_encoder :: "pydict \<Rightarrow> string"
  client :: "'db mgclient"
  host :: string
  port :: int
  cpu_count :: nat

record 'db sys =
  sys_graph :: graph
  num_of_processes :: nat
  orch :: orch
  procs_phase :: phase
  procs :: "proc list"
  db :: 'db
  trace :: "event list"

text \<open>Line 42, and the state before the first phase.\<close>

definition init :: "'db setting \<Rightarrow> graph \<Rightarrow> 'db \<Rightarrow> 'db sys" where
  "init env g d =
     \<lparr>sys_graph = g, num_of_processes = cpu_count env div 2, orch = AtPhase NodePhase,
      procs_phase = NodePhase, procs = [], db = d, trace = []\<rparr>"

text \<open>\<open>list(queries_gen)\<close>: the generator of the phase runs when the phase begins.\<close>

fun phase_queries :: "'db setting \<Rightarrow> phase \<Rightarrow> graph \<Rightarrow> pyerror + string list \<times> graph" where
  "phase_queries env NodePhase g =
     Inr (nx_nodes_to_cypher (labels_encoder env) (properties_encoder env) g)"
| "phase_queries env EdgePhase g =
     nx_edges_to_cypher (labels_encoder env) (properties_encoder env) g"

fun next_phase :: "phase \<Rightarrow> orch" where
  "next_phase NodePhase = AtPhase EdgePhase"
| "next_phase EdgePhase = Returned"

fun start_proc :: "proc \<Rightarrow> proc" where
  "start_proc (Created qs) = Connecting qs"
| "start_proc p = p"

fun is_exited :: "proc \<Rightarrow> bool" where
  "is_exited (Exited r) = True"
| "is_exited p = False"

text \<open>One move of the orchestrator, lines 43 to 58.\<close>

definition orch_step :: "'db setting \<Rightarrow> 'db sys \<Rightarrow> 'db sys" where
  "orch_step env s =
     (case orch s of
        AtPhase ph \<Rightarrow>
          (case phase_queries env ph (sys_graph s) of
             Inl e \<Rightarrow> s\<lparr>orch := Raised e\<rparr>
           | Inr (queries, g') \<Rightarrow>
               (case make_chunks queries (num_of_processes s) of
                  Inl e \<Rightarrow> s\<lparr>sys_graph := g', orch := Raised e\<rparr>
                | Inr chunks \<Rightarrow>
                    s\<lparr>sys_graph := g', orch := Starting ph 0, procs_phase := ph,
                      procs := map Created chunks,
                      trace := trace s @ [Partitioned ph queries chunks]\<rparr>))
      | Starting ph i \<Rightarrow>
          (if i < length (procs s)
           then s\<lparr>procs := (procs s)[i := start_proc (procs s ! i)],
                  orch := Starting ph (i + 1),
                  trace := trace s @ [Started ph i]\<rparr>
           else s\<lparr>orch := Joining ph 0\<rparr>)
      | Joining ph i \<Rightarrow>
          (if i < length (procs s)
           then (if is_exited (procs s ! i)
                 then s\<lparr>orch := Joining ph (i + 1), trace := trace s @ [Joined ph i]\<rparr>
                 else s)
           else s\<lparr>orch := next_phase ph\<rparr>)
      | Returned \<Rightarrow> s
      | Raised e \<Rightarrow> s)"

text \<open>One move of a worker process, \<open>_insert_queries\<close> from where it stands.\<close>

fun proc_step ::
  "'db mgclient \<Rightarrow> string \<Rightarrow> int \<Rightarrow> proc \<Rightarrow> 'db \<Rightarrow> proc \<times> 'db \<times> wevent list" where
  "proc_step c h p (Created qs) d = (Created qs, d, [])"
| "proc_step c h p (Connecting qs) d =
     (case connect c h p d of
        (Some e, d') \<Rightarrow> (Exited (Some e), d', [Connect h p])
      | (None, d') \<Rightarrow> (Looping qs, d', [Connect h p]))"
| "proc_step c h p (Looping qs) d =
     (if length qs > 0 then
        (case loop_body c qs d of
           (Continue qs', d', evs) \<Rightarrow> (Looping qs', d', evs)
         | (Break, d', evs) \<Rightarrow> (Exited None, d', evs)
         | (Raise e, d', evs) \<Rightarrow> (Exited (Some e), d', evs))
      else (Exited None, d, []))"
| "proc_step c h p (Exited r) d = (Exited r, d, [])"

text \<open>A number of moves of one worker process on its own, from a process state, a
  database and a log.\<close>

fun proc_turns ::
  "'db mgclient \<Rightarrow> string \<Rightarrow> int \<Rightarrow> nat \<Rightarrow> proc \<times> 'db \<times> wevent list
     \<Rightarrow> proc \<times> 'db \<times> wevent list" where
  "proc_turns c h p 0 st = st"
| "proc_turns c h p (Suc n) (pr, d, log) =
     (let (pr', d', evs) = proc_step c h p pr d in proc_turns c h p n (pr', d', log @ evs))"

definition process_step :: "'db setting \<Rightarrow> nat \<Rightarrow> 'db sys \<Rightarrow> 'db sys" where
  "process_step env j s =
     (if j < length (procs s) then
        (let (p', d', evs) = proc_step (client env) (host env) (port env) (procs s ! j) (db s)
         in s\<lparr>procs := (procs s)[j := p'], db := d',
              trace := trace s @ map (Worker (procs_phase s) j) evs
                @ (if is_exited p' \<and> \<not> is_exited (procs s ! j)
                   then [Terminated (procs_phase s) j] else [])\<rparr>)
      else s)"

datatype turn = Orchestrator | Process nat

fun sys_step :: "'db setting \<Rightarrow> turn \<Rightarrow> 'db sys \<Rightarrow> 'db sys" where
  "sys_step env Orchestrator s = orch_step env s"
| "sys_step env (Process j) s = process_step env j s"

definition run :: "'db setting \<Rightarrow> turn list \<Rightarrow> 'db sys \<Rightarrow> 'db sys" where
  "run env sched s = foldl (\<lambda>s t. sys_step env t s) s sched"

text \<open>What the call has given its caller: nothing yet, a normal return, or an
  exception.\<close>

definition outcome :: "'db sys \<Rightarrow> pyerror option option" where
  "outcome s = (case orch s of Returned \<Rightarrow> Some None | Raised e \<Rightarrow> Some (Some e) | _ \<Rightarrow> None)"

section \<open>The literal encoder\<close>

text \<open>
  Modelled from the spec: \<open>to_cypher_labels\<close> of \<open>gqlalchemy.utilities\<close>, which is
  not among the sources. A single label or an ordered list of labels becomes the
  concatenation of one label marker per label, in order; no label gives the empty
  fragment. It is used here for concrete runs only: every general statement below
  holds for any encoder.
\<close>

fun to_cypher_labels :: "pyval \<Rightarrow> string" where
  "to_cypher_labels (PStr s) = (if s = [] then [] else '':'' @ s)"
| "to_cypher_labels (PList ls) =
     concat (map (\<lambda>l. case l of PStr s \<Rightarrow> '':'' @ s | _ \<Rightarrow> []) ls)"
| "to_cypher_labels v = []"

fun join_with :: "string \<Rightarrow> string list \<Rightarrow> string" where
  "join_with sep [] = []"
| "join_with sep [x] = x"
| "join_with sep (x # y # ys) = x @ sep @ join_with sep (y # ys)"

text \<open>
  Modelled from the spec: the value literals of \<open>gqlalchemy.utilities\<close>, which is not
  among the sources, written as the spec's examples write them (a string in double
  quotes, a number in decimal).
\<close>

fun to_cypher_value :: "pyval \<Rightarrow> string" where
  "to_cypher_value (PStr s) = [CHR 0x22] @ s @ [CHR 0x22]"
| "to_cypher_value (PInt i) = str_int i"
| "to_cypher_value (PBool b) = (if b then ''true'' else ''false'')"
| "to_cypher_value PNone = ''null''"
| "to_cypher_value (PList vs) = ''['' @ join_with '', '' (map to_cypher_value vs) @ '']''"

text \<open>
  Modelled from the spec: \<open>to_cypher_properties\<close> of \<open>gqlalchemy.utilities\<close>, which
  is not among the sources. A property map literal with the keys in the mapping's
  iteration order; the empty mapping gives the empty fragment.
\<close>

definition to_cypher_properties :: "pydict \<Rightarrow> string" where
  "to_cypher_properties properties =
     (if properties = [] then []
      else ''{'' @ join_with '', '' (map (\<lambda>(k, v). k @ '': '' @ to_cypher_value v) properties)
             @ ''}'')"

section \<open>Concrete inputs\<close>

text \<open>A database that reports no error, a setting on the local host with a given
  CPU count, a graph of one node with a loop, and the schedule that lets one phase
  of \<open>W\<close> workers run to its end, each worker taking \<open>n\<close> turns in a row.\<close>

definition steady_client :: "unit mgclient" where
  "steady_client =
     \<lparr>connect = (\<lambda>h p d. (None, d)), execute = (\<lambda>q d. (None, d)), commit = (\<lambda>d. (None, d))\<rparr>"

definition local_setting :: "nat \<Rightarrow> unit setting" where
  "local_setting n =
     \<lparr>labels_encoder = to_cypher_labels, properties_encoder = to_cypher_properties,
      client = steady_client, host = ''127.0.0.1'', port = 7687, cpu_count = n\<rparr>"

definition loop_graph :: graph where
  "loop_graph = \<lparr>nodes = [(0, [])], edges = [(0, 0, [])]\<rparr>"

definition phase_turns :: "nat \<Rightarrow> nat \<Rightarrow> turn list" where
  "phase_turns W n =
     Orchestrator # replicate (W + 1) Orchestrator
       @ concat (map (\<lambda>j. replicate n (Process j)) [0..<W])
       @ replicate (W + 1) Orchestrator"

text \<open>A database that rejects every statement, the setting that uses it, a graph of
  three nodes with two edges into the last node, and a graph of two nodes with three
  edges.\<close>

definition busy_client :: "unit mgclient" where
  "busy_client =
     \<lparr>connect = (\<lambda>h p d. (None, d)),
      execute = (\<lambda>q d. (Some (DatabaseError ''busy''), d)),
      commit = (\<lambda>d. (None, d))\<rparr>"

definition busy_setting :: "nat \<Rightarrow> unit setting" where
  "busy_setting n =
     \<lparr>labels_encoder = to_cypher_labels, properties_encoder = to_cypher_properties,
      client = busy_client, host = ''127.0.0.1'', port = 7687, cpu_count = n\<rparr>"


definition pair_graph :: graph where
  "pair_graph = \<lparr>nodes = [(0, []), (1, [])], edges = [(0, 1, []), (0, 0, []), (1, 1, [])]\<rparr>"

section \<open>Invariants of the parallel loader\<close>






text \<open>The statements a process still holds.\<close>

fun queue_of :: "proc \<Rightarrow> string list" where
  "queue_of (Created qs) = qs"
| "queue_of (Connecting qs) = qs"
| "queue_of (Looping qs) = qs"
| "queue_of (Exited r) = []"

text \<open>The graph as a phase finds it, and the statement list the phase
  materializes, for a call on the graph \<open>g\<close>: the edge generator runs on the graph
  the node generator has left.\<close>

fun graph_at :: "'db setting \<Rightarrow> graph \<Rightarrow> phase \<Rightarrow> graph" where
  "graph_at env g NodePhase = g"
| "graph_at env g EdgePhase =
     snd (nx_nodes_to_cypher (labels_encoder env) (properties_encoder env) g)"

definition phase_statements :: "'db setting \<Rightarrow> graph \<Rightarrow> phase \<Rightarrow> pyerror + string list" where
  "phase_statements env g ph =
     (case phase_queries env ph (graph_at env g ph) of
        Inl e \<Rightarrow> Inl e
      | Inr (queries, g') \<Rightarrow> Inr queries)"

fun graph_due :: "'db setting \<Rightarrow> graph \<Rightarrow> orch \<Rightarrow> graph option" where
  "graph_due env g (AtPhase ph) = Some (graph_at env g ph)"
| "graph_due env g (Starting NodePhase i) = Some (graph_at env g EdgePhase)"
| "graph_due env g (Joining NodePhase i) = Some (graph_at env g EdgePhase)"
| "graph_due env g ob = None"

text \<open>The processes at hand hold statements of their own chunk only.\<close>

definition procs_from_chunks :: "'db setting \<Rightarrow> graph \<Rightarrow> 'db sys \<Rightarrow> bool" where
  "procs_from_chunks env g s =
     (procs s = [] \<or>
      (\<exists>qs chunks. phase_statements env g (procs_phase s) = Inr qs
         \<and> make_chunks qs (num_of_processes s) = Inr chunks
         \<and> length (procs s) = length chunks
         \<and> (\<forall>j < length (procs s). set (queue_of (procs s ! j)) \<subseteq> set (chunks ! j))))"

text \<open>Every partition in the trace is the partition of the phase's statement list,
  and every statement executed comes from the chunk of the worker that executes it.\<close>

definition trace_from_chunks :: "'db setting \<Rightarrow> graph \<Rightarrow> nat \<Rightarrow> event list \<Rightarrow> bool" where
  "trace_from_chunks env g W t =
     ((\<forall>ph qs chunks. Partitioned ph qs chunks \<in> set t \<longrightarrow>
          phase_statements env g ph = Inr qs \<and> make_chunks qs W = Inr chunks)
      \<and> (\<forall>ph j q. Worker ph j (Execute q) \<in> set t \<longrightarrow>
          (\<exists>qs chunks. phase_statements env g ph = Inr qs \<and> make_chunks qs W = Inr chunks
             \<and> j < length chunks \<and> q \<in> set (chunks ! j))))"

definition prov_inv :: "'db setting \<Rightarrow> graph \<Rightarrow> 'db sys \<Rightarrow> bool" where
  "prov_inv env g s =
     (trace_from_chunks env g (num_of_processes s) (trace s)
      \<and> procs_from_chunks env g s
      \<and> (\<forall>g'. graph_due env g (orch s) = Some g' \<longrightarrow> sys_graph s = g'))"

text \<open>An exception leaves the orchestrator for one of two reasons only: no worker to
  divide by, or the edge generator has raised.\<close>

definition raise_inv :: "'db setting \<Rightarrow> graph \<Rightarrow> 'db sys \<Rightarrow> bool" where
  "raise_inv env g s =
     (\<forall>e. orch s = Raised e \<longrightarrow>
        num_of_processes s = 0 \<and> e = ZeroDivisionError
        \<or> phase_statements env g EdgePhase = Inl e)"

text \<open>A process that has not ended and still holds a statement, and the states of
  the orchestrator in which the first edge worker is such a process and is the one the
  orchestrator will join next.\<close>

definition alive :: "proc \<Rightarrow> bool" where
  "alive p = (\<not> is_exited p \<and> queue_of p \<noteq> [])"

fun blocked_at :: "orch \<Rightarrow> proc list \<Rightarrow> bool" where
  "blocked_at (Starting EdgePhase i) ps = (0 < length ps \<and> alive (ps ! 0))"
| "blocked_at (Joining EdgePhase i) ps = (i = 0 \<and> 0 < length ps \<and> alive (ps ! 0))"
| "blocked_at Returned ps = False"
| "blocked_at ob ps = True"

section \<open>Properties of the partitioner\<close>

lemma py_slice_chunk_length:
  "cs * (i + 1) \<le> length xs \<Longrightarrow> length (py_slice xs (i * cs) (cs * (i + 1))) = cs"
  by (simp add: py_slice_def algebra_simps)

lemma concat_slices:
  "concat (map (\<lambda>i. py_slice xs (i * cs) (cs * (i + 1))) [0..<W]) = take (cs * W) xs"
proof (induction W)
  case 0
  then show ?case by simp
next
  case (Suc W)
  have a: "py_slice xs (W * cs) (cs * (W + 1)) = take cs (drop (cs * W) xs)"
    by (simp add: py_slice_def algebra_simps)
  have b: "take (cs * Suc W) xs = take (cs * W) xs @ take cs (drop (cs * W) xs)"
    using take_add [of "cs * W" cs xs] by (simp add: add.commute)
  have "concat (map (\<lambda>i. py_slice xs (i * cs) (cs * (i + 1))) [0..<Suc W])
        = concat (map (\<lambda>i. py_slice xs (i * cs) (cs * (i + 1))) [0..<W])
          @ py_slice xs (W * cs) (cs * (W + 1))"
    by simp
  also have "\<dots> = take (cs * W) xs @ take cs (drop (cs * W) xs)"
    unfolding Suc.IH a ..
  finally show ?case unfolding b .
qed

lemma sum_slice_lengths:
  assumes "cs * W \<le> length xs"
  shows "sum_list (map (\<lambda>i. length (py_slice xs (i * cs) (cs * (i + 1)))) [0..<W]) = cs * W"
proof -
  have "sum_list (map (\<lambda>i. length (py_slice xs (i * cs) (cs * (i + 1)))) [0..<W])
        = length (concat (map (\<lambda>i. py_slice xs (i * cs) (cs * (i + 1))) [0..<W]))"
    unfolding length_concat map_map comp_def ..
  also have "\<dots> = cs * W"
    unfolding concat_slices using assms by simp
  finally show ?thesis .
qed

text \<open>
  Claim C2. For at least one worker, the partitioner computes the chunk size as the
  integer quotient of the list length by the worker count and gives worker \<open>i\<close> the
  contiguous slice from \<open>i * chunk_size\<close> up to \<open>(i + 1) * chunk_size\<close>. Every chunk
  has that length, the chunk lengths sum to the quotient times the worker count, the
  sum is below the list length whenever the division leaves a remainder, and the
  chunks together are the prefix of that length: the remainder goes to no worker.
\<close>

theorem partition_chunks:
  assumes "1 \<le> W"
  shows "\<exists>chunks.
           chunk_size queries W = Inr (length queries div W) \<and>
           make_chunks queries W = Inr chunks \<and>
           length chunks = W \<and>
           (\<forall>i < W. chunks ! i =
               py_slice queries (i * (length queries div W)) ((i + 1) * (length queries div W))) \<and>
           (\<forall>i < W. length (chunks ! i) = length queries div W) \<and>
           sum_list (map length chunks) = (length queries div W) * W \<and>
           (length queries mod W \<noteq> 0 \<longrightarrow> sum_list (map length chunks) < length queries) \<and>
           concat chunks = take ((length queries div W) * W) queries"
proof -
  define cs where "cs = length queries div W"
  define chunks where "chunks = map (\<lambda>i. py_slice queries (i * cs) (cs * (i + 1))) [0..<W]"
  have W: "W \<noteq> 0" using assms by simp
  have bound: "cs * W \<le> length queries"
    unfolding cs_def by (simp add: mult.commute)
  have c1: "chunk_size queries W = Inr cs"
    using W by (simp add: chunk_size_def cs_def)
  have c2: "make_chunks queries W = Inr chunks"
    using c1 by (simp add: make_chunks_def chunks_def)
  have c3: "length chunks = W"
    by (simp add: chunks_def)
  have c4: "\<forall>i < W. chunks ! i = py_slice queries (i * cs) ((i + 1) * cs)"
    by (simp add: chunks_def mult.commute)
  have c5: "\<forall>i < W. length (chunks ! i) = cs"
  proof (intro allI impI)
    fix i assume "i < W"
    then have "i + 1 \<le> W" by simp
    then have "cs * (i + 1) \<le> cs * W" by (rule mult_le_mono2)
    with bound have "cs * (i + 1) \<le> length queries" by simp
    then have "length (py_slice queries (i * cs) (cs * (i + 1))) = cs"
      by (rule py_slice_chunk_length)
    with \<open>i < W\<close> show "length (chunks ! i) = cs"
      by (simp add: chunks_def)
  qed
  have c6: "sum_list (map length chunks) = cs * W"
    using sum_slice_lengths [OF bound] by (simp add: chunks_def comp_def)
  have c7: "length queries mod W \<noteq> 0 \<longrightarrow> sum_list (map length chunks) < length queries"
  proof
    assume "length queries mod W \<noteq> 0"
    moreover have "length queries = cs * W + length queries mod W"
      unfolding cs_def by simp
    ultimately show "sum_list (map length chunks) < length queries"
      using c6 by linarith
  qed
  have c8: "concat chunks = take (cs * W) queries"
    unfolding chunks_def by (rule concat_slices)
  show ?thesis
    using c1 c2 c3 c4 c5 c6 c7 c8 unfolding cs_def by blast
qed


theorem partition_chunks_witness:
  "(1::nat) \<le> 3 \<and>
   (\<exists>chunks. make_chunks ''abcdefghij'' 3 = Inr chunks \<and> length chunks = 3 \<and>
      sum_list (map length chunks) = 9 \<and> concat chunks = ''abcdefghi'')"
proof -
  have h: "(1::nat) \<le> 3" by simp
  from partition_chunks [OF h, of "''abcdefghij''"] obtain chunks where
    "make_chunks ''abcdefghij'' 3 = Inr chunks" "length chunks = 3"
    "sum_list (map length chunks) = 9" "concat chunks = ''abcdefghi''"
    by auto
  then show ?thesis by auto
qed

section \<open>Properties of statement generation\<close>

lemma create_node_eq:
  "create_node enc_l enc_p nx_id data =
     (''CREATE ('' @ enc_l (dict_get data NX_LABELS (PStr '''')) @ '' ''
        @ enc_p (properties_without_labels (properties_with_id nx_id data)) @ '');'',
      properties_with_id nx_id data)"
proof -
  have "map_of (properties_with_id nx_id data) NX_LABELS = map_of data NX_LABELS"
    by (simp add: properties_with_id_def dict_setitem_def update_conv' NX_LABELS_def)
  then have "dict_get (properties_with_id nx_id data) NX_LABELS (PStr '''')
             = dict_get data NX_LABELS (PStr '''')"
    by (simp add: dict_get_def)
  then show ?thesis
    by (simp add: create_node_def Let_def)
qed

lemma properties_with_id_lookup:
  "map_of (properties_with_id nx_id data) ''id'' = Some (dict_get data ''id'' (PInt nx_id))"
  by (cases "map_of data ''id''")
     (simp_all add: properties_with_id_def dict_contains_def dict_setitem_def dict_get_def
        update_conv')

lemma map_of_without_labels:
  "k \<noteq> NX_LABELS \<Longrightarrow> map_of (properties_without_labels d) k = map_of d k"
  by (induction d) (auto simp: properties_without_labels_def)

lemma nodes_loop_eq:
  "nodes_loop enc_l enc_p ns =
     (map (\<lambda>(nx_id, data). fst (create_node enc_l enc_p nx_id data)) ns,
      map (\<lambda>(nx_id, data). (nx_id, properties_with_id nx_id data)) ns)"
  by (induction ns) (auto simp: create_node_eq split: prod.splits)

text \<open>
  Claim C5. Node-statement generation yields exactly one creation statement per node
  of the graph, in the graph's node order. The property map handed to the property
  encoder for a node holds an \<open>id\<close> entry: the node's own \<open>id\<close> attribute when it
  has one, the node's graph identifier otherwise.
\<close>

theorem node_statements:
  "fst (nx_nodes_to_cypher enc_l enc_p g) =
     map (\<lambda>(nx_id, data).
            ''CREATE ('' @ enc_l (dict_get data NX_LABELS (PStr '''')) @ '' ''
              @ enc_p (properties_without_labels (properties_with_id nx_id data)) @ '');'')
         (nodes g)
   \<and> length (fst (nx_nodes_to_cypher enc_l enc_p g)) = length (nodes g)
   \<and> map_of (properties_without_labels (properties_with_id nx_id data)) ''id''
       = Some (case map_of data ''id'' of Some v \<Rightarrow> v | None \<Rightarrow> PInt nx_id)"
proof -
  have "fst (nx_nodes_to_cypher enc_l enc_p g) =
          map (\<lambda>(nx_id, data). fst (create_node enc_l enc_p nx_id data)) (nodes g)"
    by (simp add: nx_nodes_to_cypher_def nodes_loop_eq)
  then have stmts: "fst (nx_nodes_to_cypher enc_l enc_p g) =
     map (\<lambda>(nx_id, data).
            ''CREATE ('' @ enc_l (dict_get data NX_LABELS (PStr '''')) @ '' ''
              @ enc_p (properties_without_labels (properties_with_id nx_id data)) @ '');'')
         (nodes g)"
    by (simp add: create_node_eq)
  have "''id'' \<noteq> NX_LABELS" by (simp add: NX_LABELS_def)
  then have "map_of (properties_without_labels (properties_with_id nx_id data)) ''id''
             = Some (dict_get data ''id'' (PInt nx_id))"
    by (simp add: map_of_without_labels properties_with_id_lookup)
  then have ident: "map_of (properties_without_labels (properties_with_id nx_id data)) ''id''
       = Some (case map_of data ''id'' of Some v \<Rightarrow> v | None \<Rightarrow> PInt nx_id)"
    by (simp add: dict_get_def split: option.splits)
  from stmts have "length (fst (nx_nodes_to_cypher enc_l enc_p g)) = length (nodes g)"
    by simp
  with stmts ident show ?thesis by blast
qed

theorem node_statements_witness:
  "fst (nx_nodes_to_cypher to_cypher_labels to_cypher_properties
          \<lparr>nodes = [(0, [(''labels'', PStr ''Person''), (''name'', PStr ''Alice'')]),
                    (1, [(''id'', PInt 7)])],
           edges = []\<rparr>)
     = [''CREATE (:Person {name: '' @ [CHR 0x22] @ ''Alice'' @ [CHR 0x22] @ '', id: 0});'',
        ''CREATE ( {id: 7});'']
   \<and> map_of (properties_without_labels (properties_with_id 1 [(''id'', PInt 7)])) ''id''
       = Some (PInt 7)"
  using node_statements [of to_cypher_labels to_cypher_properties
          "\<lparr>nodes = [(0, [(''labels'', PStr ''Person''), (''name'', PStr ''Alice'')]),
                    (1, [(''id'', PInt 7)])],
            edges = []\<rparr>" 1 "[(''id'', PInt 7)]"]
  by (simp add: dict_get_def NX_LABELS_def properties_without_labels_def properties_with_id_def
        dict_contains_def dict_setitem_def to_cypher_properties_def str_int_def str_nat.simps)

text \<open>
  Claim C7. The property map encoded into a node statement has no \<open>labels\<close> key, and
  the property map encoded into an edge statement has no \<open>type\<close> key: the first goes
  through the label encoder instead, the second gives the relationship type.
\<close>

theorem reserved_keys_excluded:
  "fst (create_node enc_l enc_p nx_id data) =
     ''CREATE ('' @ enc_l (dict_get data NX_LABELS (PStr '''')) @ '' ''
        @ enc_p (properties_without_labels (properties_with_id nx_id data)) @ '');''
   \<and> NX_LABELS \<notin> fst ` set (properties_without_labels (properties_with_id nx_id data))
   \<and> fst (create_edge enc_l enc_p from_id to_id from_label to_label edata) =
     ''MATCH (n'' @ enc_l from_label @ '' {id: '' @ str_int from_id @ ''}), (m''
        @ enc_l to_label @ '' {id: '' @ str_int to_id @ ''}) CREATE (n)-[''
        @ enc_l (dict_get edata NX_TYPE (PStr ''TO'')) @ '' ''
        @ enc_p (dict_pop edata NX_TYPE) @ '']->(m);''
   \<and> NX_TYPE \<notin> fst ` set (dict_pop edata NX_TYPE)"
proof -
  have a: "NX_LABELS \<notin> fst ` set (properties_without_labels (properties_with_id nx_id data))"
    by (auto simp: properties_without_labels_def)
  have b: "NX_TYPE \<notin> fst ` set (dict_pop edata NX_TYPE)"
    by (simp add: dict_pop_def delete_notin_dom)
  show ?thesis
    using a b by (simp add: create_node_eq create_edge_def Let_def)
qed

theorem reserved_keys_excluded_witness:
  "fst (create_node to_cypher_labels to_cypher_properties 0
          [(''labels'', PStr ''Person''), (''name'', PStr ''Alice'')])
     = ''CREATE (:Person {name: '' @ [CHR 0x22] @ ''Alice'' @ [CHR 0x22] @ '', id: 0});''
   \<and> fst (create_edge to_cypher_labels to_cypher_properties 0 1 (PStr ''Person'') (PStr ''City'')
          [(''type'', PStr ''LIVES_IN''), (''since'', PInt 2020)])
     = ''MATCH (n:Person {id: 0}), (m:City {id: 1}) CREATE (n)-[:LIVES_IN {since: 2020}]->(m);''
   \<and> ''type'' \<notin> fst ` set (dict_pop [(''type'', PStr ''LIVES_IN''), (''since'', PInt 2020)] ''type'')"
  using reserved_keys_excluded [of to_cypher_labels to_cypher_properties 0
          "[(''labels'', PStr ''Person''), (''name'', PStr ''Alice'')]" 0 1
          "PStr ''Person''" "PStr ''City''"
          "[(''type'', PStr ''LIVES_IN''), (''since'', PInt 2020)]"]
  by (simp add: dict_get_def NX_LABELS_def NX_TYPE_def properties_without_labels_def
        properties_with_id_def dict_contains_def dict_setitem_def dict_pop_def
        to_cypher_properties_def str_int_def str_nat.simps)

section \<open>Properties of the per-worker loader\<close>

lemma loop_body_database_error:
  assumes "execute c q d = (Some (DatabaseError m), d1)"
  shows "loop_body c (qs @ [q]) d =
           (Continue (qs @ [q]), d1, [Execute q, Warning (''Ignoring database error: '' @ m)])"
  using assms by (simp add: loop_body_def)

lemma loop_body_first_event:
  assumes "qs \<noteq> []"
  shows "\<exists>fl d' rest. loop_body c qs d = (fl, d', Execute (last qs) # rest)
           \<and> (Commit \<in> set rest) = (fst (execute c (last qs) d) = None)"
  using assms
  by (cases "execute c (last qs) d")
     (auto simp: loop_body_def Let_def split: option.splits pyerror.splits prod.splits)

lemma loop_body_success:
  assumes "execute c q d = (None, d1)" "commit c d1 = (None, d2)"
  shows "loop_body c (qs @ [q]) d = (Continue qs, d2, [Execute q, Commit])"
  using assms by (simp add: loop_body_def)

lemma insert_loop_all_succeed:
  assumes ex: "\<And>q d. fst (execute c q d) = None" and co: "\<And>d. fst (commit c d) = None"
  shows "\<exists>d'. insert_loop c qs d log =
            Some (None, d', log @ concat (map (\<lambda>q. [Execute q, Commit]) (rev qs)))"
proof (induction qs arbitrary: d log rule: rev_induct)
  case Nil
  show ?case by (subst insert_loop.simps) simp
next
  case (snoc q qs)
  obtain d1 where e: "execute c q d = (None, d1)"
    using ex [of q d] by (cases "execute c q d") simp
  obtain d2 where k: "commit c d1 = (None, d2)"
    using co [of d1] by (cases "commit c d1") simp
  have body: "loop_body c (qs @ [q]) d = (Continue qs, d2, [Execute q, Commit])"
    using e k by (rule loop_body_success)
  have "insert_loop c (qs @ [q]) d log = insert_loop c qs d2 (log @ [Execute q, Commit])"
    by (subst insert_loop.simps) (simp add: body)
  with snoc.IH [of d2 "log @ [Execute q, Commit]"] show ?case
    by auto
qed

text \<open>
  Claim C1, as amended. When the execution of a statement fails with a
  database-reported error, the statement goes back to the tail of the worker's list,
  a warning is logged, nothing is committed and the error does not leave the loop.
  The loop takes its next statement from the tail as well, so the next statement
  attempted is the failed one again, whatever else the list holds.
\<close>

theorem requeue_on_database_error:
  assumes "execute c q d = (Some (DatabaseError m), d1)"
  shows "loop_body c (qs @ [q]) d =
           (Continue (qs @ [q]), d1, [Execute q, Warning (''Ignoring database error: '' @ m)])
         \<and> insert_loop c (qs @ [q]) d log =
             insert_loop c (qs @ [q]) d1
               (log @ [Execute q, Warning (''Ignoring database error: '' @ m)])
         \<and> (\<exists>fl d2 rest. loop_body c (qs @ [q]) d1 = (fl, d2, Execute q # rest))"
proof -
  have a: "loop_body c (qs @ [q]) d =
           (Continue (qs @ [q]), d1, [Execute q, Warning (''Ignoring database error: '' @ m)])"
    using assms by (rule loop_body_database_error)
  have b: "insert_loop c (qs @ [q]) d log =
             insert_loop c (qs @ [q]) d1
               (log @ [Execute q, Warning (''Ignoring database error: '' @ m)])"
    by (subst insert_loop.simps) (simp add: a)
  have "qs @ [q] \<noteq> []" by simp
  from loop_body_first_event [OF this, of c d1]
  have c: "\<exists>fl d2 rest. loop_body c (qs @ [q]) d1 = (fl, d2, Execute q # rest)"
    by auto
  from a b c show ?thesis by blast
qed

theorem requeue_on_database_error_witness:
  "execute
     \<lparr>connect = (\<lambda>h p d. (None, d)),
      execute = (\<lambda>q d. (if d = (0::nat) then Some (DatabaseError ''busy'') else None, d + 1)),
      commit = (\<lambda>d. (None, d))\<rparr> ''b'' 0 = (Some (DatabaseError ''busy''), 1)
   \<and> loop_body
     \<lparr>connect = (\<lambda>h p d. (None, d)),
      execute = (\<lambda>q d. (if d = (0::nat) then Some (DatabaseError ''busy'') else None, d + 1)),
      commit = (\<lambda>d. (None, d))\<rparr> [''a'', ''b''] 0
     = (Continue [''a'', ''b''], 1, [Execute ''b'', Warning ''Ignoring database error: busy''])"
  using requeue_on_database_error [of
     "\<lparr>connect = (\<lambda>h p d. (None, d)),
      execute = (\<lambda>q d. (if d = (0::nat) then Some (DatabaseError ''busy'') else None, d + 1)),
      commit = (\<lambda>d. (None, d))\<rparr>" "''b''" 0 "''busy''" 1 "[''a'']"]
  by simp

text \<open>
  Claim C1 as stated fails: on the list \<open>a, b\<close> with a database that rejects the first
  attempt only, the statement attempted after the failure of \<open>b\<close> is \<open>b\<close>, not \<open>a\<close>.
\<close>

theorem requeue_counterexample:
  "insert_queries
     \<lparr>connect = (\<lambda>h p d. (None, d)),
      execute = (\<lambda>q d. (if d = (0::nat) then Some (DatabaseError ''busy'') else None, d + 1)),
      commit = (\<lambda>d. (None, d))\<rparr>
     [''a'', ''b''] ''127.0.0.1'' 7687 0
   = Some (None, 3,
       [Connect ''127.0.0.1'' 7687, Execute ''b'', Warning ''Ignoring database error: busy'',
        Execute ''b'', Commit, Execute ''a'', Commit])"
  by (simp add: insert_queries_def insert_loop.simps loop_body_def Let_def)

text \<open>
  Claim C8, as amended. The worker takes its statements from the tail of its list:
  an iteration on a list that is not empty attempts the last statement, and commits
  exactly when that execution succeeds. On a database that reports no error the
  worker connects once, executes the chunk in reverse order with a commit after each
  statement, and returns.
\<close>

theorem worker_order:
  "(qs \<noteq> [] \<longrightarrow>
      (\<exists>fl d' rest. loop_body c qs d = (fl, d', Execute (last qs) # rest)
         \<and> (Commit \<in> set rest) = (fst (execute c (last qs) d) = None)))
   \<and> (fst (connect c h p d0) = None \<and> (\<forall>q d. fst (execute c q d) = None)
        \<and> (\<forall>d. fst (commit c d) = None) \<longrightarrow>
      (\<exists>d'. insert_queries c qs h p d0 =
           Some (None, d', Connect h p # concat (map (\<lambda>q. [Execute q, Commit]) (rev qs)))))"
proof (intro conjI impI)
  assume "qs \<noteq> []"
  then show "\<exists>fl d' rest. loop_body c qs d = (fl, d', Execute (last qs) # rest)
         \<and> (Commit \<in> set rest) = (fst (execute c (last qs) d) = None)"
    by (rule loop_body_first_event)
next
  assume a: "fst (connect c h p d0) = None \<and> (\<forall>q d. fst (execute c q d) = None)
        \<and> (\<forall>d. fst (commit c d) = None)"
  then obtain d1 where "connect c h p d0 = (None, d1)"
    by (cases "connect c h p d0") simp
  then have "insert_queries c qs h p d0 = insert_loop c qs d1 [Connect h p]"
    by (simp add: insert_queries_def)
  moreover have "\<exists>d'. insert_loop c qs d1 [Connect h p] =
            Some (None, d', [Connect h p] @ concat (map (\<lambda>q. [Execute q, Commit]) (rev qs)))"
    using a by (intro insert_loop_all_succeed) simp_all
  ultimately show "\<exists>d'. insert_queries c qs h p d0 =
           Some (None, d', Connect h p # concat (map (\<lambda>q. [Execute q, Commit]) (rev qs)))"
    by simp
qed

theorem worker_order_witness:
  "[''a'', ''b''] \<noteq> []
   \<and> fst (connect 
     \<lparr>connect = (\<lambda>h p d. (None, d)), execute = (\<lambda>q d. (None, d)),
      commit = (\<lambda>d. (None, d))\<rparr> ''127.0.0.1'' 7687 ()) = None
   \<and> (\<forall>q d. fst (execute 
     \<lparr>connect = (\<lambda>h p d. (None, d)), execute = (\<lambda>q d. (None, d)),
      commit = (\<lambda>d. (None, d))\<rparr> q d) = None)
   \<and> (\<forall>d. fst (commit 
     \<lparr>connect = (\<lambda>h p d. (None, d)), execute = (\<lambda>q d. (None, d)),
      commit = (\<lambda>d. (None, d))\<rparr> d) = None)
   \<and> (\<exists>d'. insert_queries 
     \<lparr>connect = (\<lambda>h p d. (None, d)), execute = (\<lambda>q d. (None, d)),
      commit = (\<lambda>d. (None, d))\<rparr> [''a'', ''b''] ''127.0.0.1'' 7687 () =
        Some (None, d',
          [Connect ''127.0.0.1'' 7687, Execute ''b'', Commit, Execute ''a'', Commit]))
   \<and> (\<exists>fl d' rest. loop_body 
     \<lparr>connect = (\<lambda>h p d. (None, d)), execute = (\<lambda>q d. (None, d)),
      commit = (\<lambda>d. (None, d))\<rparr> [''a'', ''b''] () = (fl, d', Execute ''b'' # rest)
        \<and> Commit \<in> set rest)"
  using worker_order [of "[''a'', ''b'']" "
     \<lparr>connect = (\<lambda>h p d. (None, d)), execute = (\<lambda>q d. (None, d)),
      commit = (\<lambda>d. (None, d))\<rparr>" "()" "''127.0.0.1''" 7687 "()"]
  by simp

text \<open>
  Claim C8 as stated fails: on the chunk \<open>a, b\<close> and a database that reports no
  error, \<open>b\<close> is executed first.
\<close>

theorem worker_order_counterexample:
  "insert_queries 
     \<lparr>connect = (\<lambda>h p d. (None, d)), execute = (\<lambda>q d. (None, d)),
      commit = (\<lambda>d. (None, d))\<rparr> [''a'', ''b''] ''127.0.0.1'' 7687 ()
     = Some (None, (),
         [Connect ''127.0.0.1'' 7687, Execute ''b'', Commit, Execute ''a'', Commit])
   \<and> insert_queries 
     \<lparr>connect = (\<lambda>h p d. (None, d)), execute = (\<lambda>q d. (None, d)),
      commit = (\<lambda>d. (None, d))\<rparr> [''a'', ''b''] ''127.0.0.1'' 7687 ()
     \<noteq> Some (None, (),
         [Connect ''127.0.0.1'' 7687, Execute ''a'', Commit, Execute ''b'', Commit])"
  by (simp add: insert_queries_def insert_loop.simps loop_body_def Let_def)

section \<open>Properties of repeated generation\<close>

lemma properties_with_id_idem:
  "properties_with_id nx_id (properties_with_id nx_id data) = properties_with_id nx_id data"
  by (simp add: properties_with_id_def dict_contains_def dict_setitem_def update_conv')

lemma labels_with_id:
  "dict_get (properties_with_id nx_id data) NX_LABELS dflt = dict_get data NX_LABELS dflt"
  by (simp add: properties_with_id_def dict_get_def dict_setitem_def update_conv' NX_LABELS_def)

lemma create_node_again:
  "create_node enc_l enc_p nx_id (properties_with_id nx_id data) =
     (fst (create_node enc_l enc_p nx_id data), properties_with_id nx_id data)"
  by (simp add: create_node_eq properties_with_id_idem labels_with_id)

lemma nodes_loop_again:
  "nodes_loop enc_l enc_p (snd (nodes_loop enc_l enc_p ns)) = nodes_loop enc_l enc_p ns"
  by (induction ns) (auto simp: nodes_loop_eq create_node_again properties_with_id_idem)

lemma create_edge_eq:
  "create_edge enc_l enc_p a b from_label to_label data =
     (''MATCH (n'' @ enc_l from_label @ '' {id: '' @ str_int a @ ''}), (m''
        @ enc_l to_label @ '' {id: '' @ str_int b @ ''}) CREATE (n)-[''
        @ enc_l (dict_get data NX_TYPE (PStr ''TO'')) @ '' ''
        @ enc_p (dict_pop data NX_TYPE) @ '']->(m);'',
      dict_pop data NX_TYPE)"
  by (simp add: create_edge_def Let_def)

text \<open>The label that line 88 or 89 reads for an endpoint that is a node.\<close>

lemma edges_loop_eq:
  "edges_loop enc_l enc_p ns es =
     (if \<forall>(a, b, d) \<in> set es. map_of ns a \<noteq> None \<and> map_of ns b \<noteq> None
      then Inr (map (\<lambda>(a, b, d).
                  fst (create_edge enc_l enc_p a b
                        (case map_of ns a of None \<Rightarrow> PNone | Some d1 \<Rightarrow> dict_get d1 NX_LABELS (PStr ''''))
                        (case map_of ns b of None \<Rightarrow> PNone | Some d2 \<Rightarrow> dict_get d2 NX_LABELS (PStr ''''))
                        d)) es,
                map (\<lambda>(a, b, d). (a, b, dict_pop d NX_TYPE)) es)
      else Inl KeyError)"
proof (induction es)
  case Nil
  show ?case by simp
next
  case (Cons e es)
  obtain a b d where e: "e = (a, b, d)" by (cases e)
  show ?case
    unfolding e using Cons.IH
    by (auto simp: create_edge_eq split: option.splits)
qed

lemma dict_pop_absent: "\<not> dict_contains d k \<Longrightarrow> dict_pop d k = d"
  by (simp add: dict_contains_def dict_pop_def map_of_eq_None_iff)

lemma dict_pop_idem: "dict_pop (dict_pop d k) k = dict_pop d k"
  by (simp add: dict_pop_def delete_idem)

lemma nx_nodes_to_cypher_eq:
  "nx_nodes_to_cypher enc_l enc_p g =
     (map (\<lambda>(nx_id, data). fst (create_node enc_l enc_p nx_id data)) (nodes g),
      g\<lparr>nodes := map (\<lambda>(nx_id, data). (nx_id, properties_with_id nx_id data)) (nodes g)\<rparr>)"
  by (simp add: nx_nodes_to_cypher_def nodes_loop_eq)

lemma nx_nodes_to_cypher_again:
  "nx_nodes_to_cypher enc_l enc_p (snd (nx_nodes_to_cypher enc_l enc_p g)) =
     nx_nodes_to_cypher enc_l enc_p g"
  by (simp add: nx_nodes_to_cypher_eq o_def case_prod_unfold create_node_eq
        properties_with_id_idem labels_with_id)

lemmas generation_defs =
  nx_to_cypher_def nx_nodes_to_cypher_def nx_edges_to_cypher_def create_node_def create_edge_def
  properties_with_id_def properties_without_labels_def dict_get_def dict_contains_def
  dict_setitem_def dict_pop_def NX_LABELS_def NX_TYPE_def to_cypher_properties_def str_int_def
  str_nat.simps Let_def

text \<open>
  Claim C4, as amended. Statement generation is re-invocable, yet not free of side
  effects on the graph. A pass that completes leaves every node mapping with an \<open>id\<close>
  entry (the node's identifier where there was none) and every edge mapping without
  its \<open>type\<close> entry, and changes nothing else. A second pass on the graph so left
  changes it no further and yields the same node statements; it yields the same whole
  sequence when no edge of the graph carried a \<open>type\<close> attribute.
\<close>

theorem generation_passes:
  assumes "nx_to_cypher enc_l enc_p g = Inr (stmts, g')"
  shows "g' = g\<lparr>nodes := map (\<lambda>(i, d). (i, properties_with_id i d)) (nodes g),
                 edges := map (\<lambda>(a, b, d). (a, b, dict_pop d NX_TYPE)) (edges g)\<rparr>
     \<and> fst (nx_nodes_to_cypher enc_l enc_p g') = fst (nx_nodes_to_cypher enc_l enc_p g)
     \<and> (\<exists>stmts'. nx_to_cypher enc_l enc_p g' = Inr (stmts', g')
           \<and> ((\<forall>(a, b, d) \<in> set (edges g). \<not> dict_contains d NX_TYPE) \<longrightarrow> stmts' = stmts))"
proof -
  define ns' where "ns' = map (\<lambda>(i, d). (i, properties_with_id i d)) (nodes g)"
  define es' where "es' = map (\<lambda>(a, b, d). (a, b, dict_pop d NX_TYPE)) (edges g)"
  define nstmts where "nstmts = fst (nx_nodes_to_cypher enc_l enc_p g)"
  define stmt_of where "stmt_of = (\<lambda>(a, b, d).
      fst (create_edge enc_l enc_p a b
            (case map_of ns' a of None \<Rightarrow> PNone | Some d1 \<Rightarrow> dict_get d1 NX_LABELS (PStr ''''))
            (case map_of ns' b of None \<Rightarrow> PNone | Some d2 \<Rightarrow> dict_get d2 NX_LABELS (PStr ''''))
            d))"
  define known where "known = (\<lambda>(a, b, d::pydict). map_of ns' a \<noteq> None \<and> map_of ns' b \<noteq> None)"
  have nodes1: "nx_nodes_to_cypher enc_l enc_p g = (nstmts, g\<lparr>nodes := ns'\<rparr>)"
    by (simp add: nx_nodes_to_cypher_eq nstmts_def ns'_def)
  have loop: "edges_loop enc_l enc_p ns' es =
                (if \<forall>e \<in> set es. known e
                 then Inr (map stmt_of es, map (\<lambda>(a, b, d). (a, b, dict_pop d NX_TYPE)) es)
                 else Inl KeyError)" for es
    unfolding edges_loop_eq known_def stmt_of_def by (simp add: case_prod_unfold)
  have ok: "\<forall>e \<in> set (edges g). known e"
  proof (rule ccontr)
    assume "\<not> (\<forall>e \<in> set (edges g). known e)"
    then have "edges_loop enc_l enc_p ns' (edges g) = Inl KeyError"
      by (simp add: loop)
    then have "nx_to_cypher enc_l enc_p g = Inl KeyError"
      by (simp add: nx_to_cypher_def nodes1 nx_edges_to_cypher_def)
    with assms show False by simp
  qed
  have edges1: "nx_edges_to_cypher enc_l enc_p (g\<lparr>nodes := ns'\<rparr>)
                  = Inr (map stmt_of (edges g), g\<lparr>nodes := ns', edges := es'\<rparr>)"
    using ok by (simp add: nx_edges_to_cypher_def loop es'_def)
  have first: "nx_to_cypher enc_l enc_p g
                 = Inr (nstmts @ map stmt_of (edges g), g\<lparr>nodes := ns', edges := es'\<rparr>)"
    by (simp add: nx_to_cypher_def nodes1 edges1)
  with assms have g': "g' = g\<lparr>nodes := ns', edges := es'\<rparr>"
    and stmts: "stmts = nstmts @ map stmt_of (edges g)"
    by simp_all
  have "nx_nodes_to_cypher enc_l enc_p (snd (nx_nodes_to_cypher enc_l enc_p g))
          = nx_nodes_to_cypher enc_l enc_p g"
    by (rule nx_nodes_to_cypher_again)
  then have again: "nx_nodes_to_cypher enc_l enc_p (g\<lparr>nodes := ns'\<rparr>) = (nstmts, g\<lparr>nodes := ns'\<rparr>)"
    by (simp add: nodes1)
  have "nx_nodes_to_cypher enc_l enc_p g'
          = (map (\<lambda>(nx_id, data). fst (create_node enc_l enc_p nx_id data)) ns',
             g'\<lparr>nodes := map (\<lambda>(nx_id, data). (nx_id, properties_with_id nx_id data)) ns'\<rparr>)"
    by (simp add: nx_nodes_to_cypher_eq g')
  moreover have "nx_nodes_to_cypher enc_l enc_p (g\<lparr>nodes := ns'\<rparr>)
          = (map (\<lambda>(nx_id, data). fst (create_node enc_l enc_p nx_id data)) ns',
             g\<lparr>nodes := map (\<lambda>(nx_id, data). (nx_id, properties_with_id nx_id data)) ns'\<rparr>)"
    by (simp add: nx_nodes_to_cypher_eq)
  ultimately have nodes2: "nx_nodes_to_cypher enc_l enc_p g' = (nstmts, g')"
    using again by (simp add: g')
  have ok': "\<forall>e \<in> set es'. known e"
    using ok by (auto simp: es'_def known_def)
  have pop: "map (\<lambda>(a, b, d). (a, b, dict_pop d NX_TYPE)) es' = es'"
    by (simp add: es'_def dict_pop_idem case_prod_unfold)
  have edges2: "nx_edges_to_cypher enc_l enc_p g' = Inr (map stmt_of es', g')"
    using ok' by (simp add: nx_edges_to_cypher_def g' loop pop)
  have second: "nx_to_cypher enc_l enc_p g' = Inr (nstmts @ map stmt_of es', g')"
    by (simp add: nx_to_cypher_def nodes2 edges2)
  have same: "stmts = nstmts @ map stmt_of es'"
    if "\<forall>(a, b, d) \<in> set (edges g). \<not> dict_contains d NX_TYPE"
  proof -
    have "es' = edges g"
      unfolding es'_def using that by (intro map_idI) (auto simp: dict_pop_absent)
    then show ?thesis by (simp add: stmts)
  qed
  have "g' = g\<lparr>nodes := map (\<lambda>(i, d). (i, properties_with_id i d)) (nodes g),
                 edges := map (\<lambda>(a, b, d). (a, b, dict_pop d NX_TYPE)) (edges g)\<rparr>"
    by (simp add: g' ns'_def es'_def)
  moreover have "fst (nx_nodes_to_cypher enc_l enc_p g') = fst (nx_nodes_to_cypher enc_l enc_p g)"
    by (simp add: nodes2 nstmts_def)
  moreover have "\<exists>stmts'. nx_to_cypher enc_l enc_p g' = Inr (stmts', g')
           \<and> ((\<forall>(a, b, d) \<in> set (edges g). \<not> dict_contains d NX_TYPE) \<longrightarrow> stmts' = stmts)"
    using second same by auto
  ultimately show ?thesis by blast
qed


theorem generation_passes_witness:
  "nx_to_cypher to_cypher_labels to_cypher_properties
     \<lparr>nodes = [(0, [(''labels'', PStr ''Person'')]), (1, [(''labels'', PStr ''City'')])],
      edges = [(0, 1, [(''since'', PInt 2020)])]\<rparr>
   = Inr ([''CREATE (:Person {id: 0});'', ''CREATE (:City {id: 1});'',
           ''MATCH (n:Person {id: 0}), (m:City {id: 1}) CREATE (n)-[:TO {since: 2020}]->(m);''],
          \<lparr>nodes = [(0, [(''labels'', PStr ''Person''), (''id'', PInt 0)]),
                    (1, [(''labels'', PStr ''City''), (''id'', PInt 1)])],
           edges = [(0, 1, [(''since'', PInt 2020)])]\<rparr>)
   \<and> (\<exists>stmts'.
        nx_to_cypher to_cypher_labels to_cypher_properties
          \<lparr>nodes = [(0, [(''labels'', PStr ''Person''), (''id'', PInt 0)]),
                    (1, [(''labels'', PStr ''City''), (''id'', PInt 1)])],
           edges = [(0, 1, [(''since'', PInt 2020)])]\<rparr>
        = Inr (stmts',
          \<lparr>nodes = [(0, [(''labels'', PStr ''Person''), (''id'', PInt 0)]),
                    (1, [(''labels'', PStr ''City''), (''id'', PInt 1)])],
           edges = [(0, 1, [(''since'', PInt 2020)])]\<rparr>)
        \<and> stmts' =
          [''CREATE (:Person {id: 0});'', ''CREATE (:City {id: 1});'',
           ''MATCH (n:Person {id: 0}), (m:City {id: 1}) CREATE (n)-[:TO {since: 2020}]->(m);''])"
proof -
  have h: "nx_to_cypher to_cypher_labels to_cypher_properties
     \<lparr>nodes = [(0, [(''labels'', PStr ''Person'')]), (1, [(''labels'', PStr ''City'')])],
      edges = [(0, 1, [(''since'', PInt 2020)])]\<rparr>
   = Inr ([''CREATE (:Person {id: 0});'', ''CREATE (:City {id: 1});'',
           ''MATCH (n:Person {id: 0}), (m:City {id: 1}) CREATE (n)-[:TO {since: 2020}]->(m);''],
          \<lparr>nodes = [(0, [(''labels'', PStr ''Person''), (''id'', PInt 0)]),
                    (1, [(''labels'', PStr ''City''), (''id'', PInt 1)])],
           edges = [(0, 1, [(''since'', PInt 2020)])]\<rparr>)"
    by (simp add: generation_defs)
  have t: "\<forall>(a, b, d) \<in> set (edges
     \<lparr>nodes = [(0, [(''labels'', PStr ''Person'')]), (1, [(''labels'', PStr ''City'')])],
      edges = [(0::int, 1::int, [(''since'', PInt 2020)])]\<rparr>). \<not> dict_contains d NX_TYPE"
    by (simp add: dict_contains_def NX_TYPE_def)
  from generation_passes [OF h] t h show ?thesis
    by auto
qed

text \<open>
  Claim C4 as stated fails: for an edge of type \<open>LIVES_IN\<close> the first pass writes
  that type, removes the attribute from the edge and adds \<open>id\<close> to both nodes; the
  second pass writes the default type \<open>TO\<close>.
\<close>

theorem generation_passes_counterexample:
  "nx_to_cypher to_cypher_labels to_cypher_properties
     \<lparr>nodes = [(0, [(''labels'', PStr ''Person'')]), (1, [(''labels'', PStr ''City'')])],
      edges = [(0, 1, [(''type'', PStr ''LIVES_IN'')])]\<rparr>
   = Inr ([''CREATE (:Person {id: 0});'', ''CREATE (:City {id: 1});'',
           ''MATCH (n:Person {id: 0}), (m:City {id: 1}) CREATE (n)-[:LIVES_IN ]->(m);''],
          \<lparr>nodes = [(0, [(''labels'', PStr ''Person''), (''id'', PInt 0)]),
                    (1, [(''labels'', PStr ''City''), (''id'', PInt 1)])],
           edges = [(0, 1, [])]\<rparr>)
   \<and> nx_to_cypher to_cypher_labels to_cypher_properties
          \<lparr>nodes = [(0, [(''labels'', PStr ''Person''), (''id'', PInt 0)]),
                    (1, [(''labels'', PStr ''City''), (''id'', PInt 1)])],
           edges = [(0, 1, [])]\<rparr>
   = Inr ([''CREATE (:Person {id: 0});'', ''CREATE (:City {id: 1});'',
           ''MATCH (n:Person {id: 0}), (m:City {id: 1}) CREATE (n)-[:TO ]->(m);''],
          \<lparr>nodes = [(0, [(''labels'', PStr ''Person''), (''id'', PInt 0)]),
                    (1, [(''labels'', PStr ''City''), (''id'', PInt 1)])],
           edges = [(0, 1, [])]\<rparr>)"
  by (simp add: generation_defs)

text \<open>
  Claim C6. The node statement of a node with an \<open>id\<close> attribute carries that
  attribute as the node's logical id, while the match clause of an edge statement is
  built from the endpoints' graph identifiers: node \<open>0\<close> with \<open>id\<close> attribute \<open>7\<close> is
  created with \<open>id: 7\<close> and matched with \<open>id: 0\<close>. Labels and relationship type are
  as the claim says.
\<close>

theorem edge_match_ignores_id_attribute:
  "nx_to_cypher to_cypher_labels to_cypher_properties
     \<lparr>nodes = [(0, [(''id'', PInt 7), (''labels'', PStr ''Person'')]),
               (1, [(''labels'', PStr ''City'')])],
      edges = [(0, 1, [(''type'', PStr ''LIVES_IN'')])]\<rparr>
   = Inr ([''CREATE (:Person {id: 7});'', ''CREATE (:City {id: 1});'',
           ''MATCH (n:Person {id: 0}), (m:City {id: 1}) CREATE (n)-[:LIVES_IN ]->(m);''],
          \<lparr>nodes = [(0, [(''id'', PInt 7), (''labels'', PStr ''Person'')]),
                    (1, [(''labels'', PStr ''City''), (''id'', PInt 1)])],
           edges = [(0, 1, [])]\<rparr>)"
  by (simp add: generation_defs)

section \<open>Properties of the parallel loader\<close>

lemma run_Nil: "run env [] s = s"
  by (simp add: run_def)

lemma run_snoc: "run env (sched @ [t]) s = sys_step env t (run env sched s)"
  by (simp add: run_def)

lemma run_Cons: "run env (t # sched) s = run env sched (sys_step env t s)"
  by (simp add: run_def)

lemma make_chunks_zero: "make_chunks qs 0 = Inl ZeroDivisionError"
  by (simp add: make_chunks_def chunk_size_def)

lemma no_process_step:
  assumes "num_of_processes s = 0" "procs s = []"
    and "orch s = AtPhase NodePhase \<or> orch s = Raised ZeroDivisionError"
  shows "num_of_processes (sys_step env t s) = 0 \<and> procs (sys_step env t s) = []
       \<and> trace (sys_step env t s) = trace s \<and> db (sys_step env t s) = db s
       \<and> orch (sys_step env t s) = (if t = Orchestrator then Raised ZeroDivisionError else orch s)"
proof (cases t)
  case Orchestrator
  from assms(3) show ?thesis
  proof
    assume "orch s = AtPhase NodePhase"
    then show ?thesis
      using assms(1,2) Orchestrator
      by (simp add: orch_step_def make_chunks_zero split: prod.splits)
  next
    assume "orch s = Raised ZeroDivisionError"
    then show ?thesis
      using assms(1,2) Orchestrator by (simp add: orch_step_def)
  qed
next
  case (Process j)
  then show ?thesis
    using assms by (auto simp: process_step_def)
qed

lemma no_process_run:
  assumes "num_of_processes s = 0" "procs s = []"
    and "orch s = AtPhase NodePhase \<or> orch s = Raised ZeroDivisionError"
  shows "num_of_processes (run env sched s) = 0 \<and> procs (run env sched s) = []
       \<and> trace (run env sched s) = trace s \<and> db (run env sched s) = db s
       \<and> orch (run env sched s) =
            (if Orchestrator \<in> set sched then Raised ZeroDivisionError else orch s)"
proof (induction sched rule: rev_induct)
  case Nil
  then show ?case using assms by (auto simp: run_Nil)
next
  case (snoc t sched)
  let ?s = "run env sched s"
  have a: "num_of_processes ?s = 0" and b: "procs ?s = []"
    and c: "orch ?s = AtPhase NodePhase \<or> orch ?s = Raised ZeroDivisionError"
    using snoc assms(3) by (auto split: if_splits)
  from no_process_step [OF a b c, of env t] snoc show ?case
    by (auto simp: run_snoc)
qed

text \<open>
  Claim C9. With a detected CPU count of 1 the worker count is 0, and the first move
  of the orchestrator, whatever the graph, ends in \<open>ZeroDivisionError\<close> from the
  chunk size of the node phase. Under every schedule the trace stays empty (no
  process is started, no connection opened, no statement executed), the database is
  untouched, and the call has raised \<open>ZeroDivisionError\<close> as soon as the
  orchestrator has had one turn.
\<close>

theorem single_cpu_raises:
  assumes "cpu_count env = 1"
  shows "outcome (sys_step env Orchestrator (init env g d)) = Some (Some ZeroDivisionError)
       \<and> trace (run env sched (init env g d)) = []
       \<and> db (run env sched (init env g d)) = d
       \<and> (outcome (run env sched (init env g d)) = Some (Some ZeroDivisionError)
            \<or> outcome (run env sched (init env g d)) = None \<and> Orchestrator \<notin> set sched)"
proof -
  have a: "num_of_processes (init env g d) = 0" and b: "procs (init env g d) = []"
    and c: "orch (init env g d) = AtPhase NodePhase \<or> orch (init env g d) = Raised ZeroDivisionError"
    using assms by (simp_all add: init_def)
  from no_process_step [OF a b c, of env Orchestrator]
  have "outcome (sys_step env Orchestrator (init env g d)) = Some (Some ZeroDivisionError)"
    by (auto simp: outcome_def)
  moreover from no_process_run [OF a b c, of env sched]
  have "trace (run env sched (init env g d)) = []" "db (run env sched (init env g d)) = d"
    "outcome (run env sched (init env g d)) = Some (Some ZeroDivisionError)
       \<or> outcome (run env sched (init env g d)) = None \<and> Orchestrator \<notin> set sched"
    by (auto simp: outcome_def init_def)
  ultimately show ?thesis by blast
qed

theorem single_cpu_raises_witness:
  "cpu_count (local_setting 1) = 1
   \<and> outcome (run (local_setting 1) [Process 0, Orchestrator, Process 0]
                (init (local_setting 1) \<lparr>nodes = [], edges = []\<rparr> ()))
       = Some (Some ZeroDivisionError)
   \<and> trace (run (local_setting 1) [Process 0, Orchestrator, Process 0]
              (init (local_setting 1) \<lparr>nodes = [], edges = []\<rparr> ())) = []"
proof -
  have h: "cpu_count (local_setting 1) = 1"
    by (simp add: local_setting_def)
  from single_cpu_raises [OF h, of "\<lparr>nodes = [], edges = []\<rparr>" "()"
         "[Process 0, Orchestrator, Process 0]"] h
  show ?thesis by simp
qed

subsection \<open>The phases never interleave\<close>















lemma process_step_eq:
  assumes "j < length (procs s)"
    and "proc_step (client env) (host env) (port env) (procs s ! j) (db s) = (p', d', evs)"
  shows "process_step env j s =
     s\<lparr>procs := (procs s)[j := p'], db := d',
       trace := trace s @ map (Worker (procs_phase s) j) evs
         @ (if is_exited p' \<and> \<not> is_exited (procs s ! j)
            then [Terminated (procs_phase s) j] else [])\<rparr>"
  using assms by (simp add: process_step_def)

lemma process_step_idle: "\<not> j < length (procs s) \<Longrightarrow> process_step env j s = s"
  by (simp add: process_step_def)




lemma num_of_processes_orch_step [simp]:
  "num_of_processes (orch_step env s) = num_of_processes s"
  by (simp add: orch_step_def split: orch.splits sum.splits prod.splits)

lemma num_of_processes_process_step [simp]:
  "num_of_processes (process_step env j s) = num_of_processes s"
  by (simp add: process_step_def split: prod.splits)

lemma num_of_processes_run [simp]:
  "num_of_processes (run env sched s) = num_of_processes s"
proof (induction sched rule: rev_induct)
  case Nil
  show ?case by (simp add: run_Nil)
next
  case (snoc t sched)
  then show ?case by (cases t) (simp_all add: run_snoc)
qed



lemma loop_body_events:
  assumes "loop_body c qs d = (fl, d', evs)" "Execute q \<in> set evs"
  shows "q \<in> set qs"
  using assms
  by (cases "qs = []")
     (auto simp: loop_body_def Let_def split: prod.splits option.splits pyerror.splits)

lemma loop_body_continue:
  assumes "loop_body c qs d = (Continue qs', d', evs)"
  shows "set qs' \<subseteq> set qs"
proof (cases "qs = []")
  case True
  with assms show ?thesis by (simp add: loop_body_def)
next
  case False
  then have "butlast qs @ [last qs] = qs" by simp
  moreover have "set (butlast qs) \<subseteq> set qs"
    by (auto dest: in_set_butlastD)
  ultimately show ?thesis
    using assms False
    by (auto simp: loop_body_def Let_def split: prod.splits option.splits pyerror.splits)
qed

lemma proc_step_events:
  assumes "proc_step c h p pr d = (pr', d', evs)" "Execute q \<in> set evs"
  shows "q \<in> set (queue_of pr)"
  using assms
  by (cases pr)
     (auto split: prod.splits option.splits flow.splits if_splits dest: loop_body_events)

lemma proc_step_queue:
  assumes "proc_step c h p pr d = (pr', d', evs)"
  shows "set (queue_of pr') \<subseteq> set (queue_of pr)"
  using assms
  by (cases pr)
     (auto split: prod.splits option.splits flow.splits if_splits
           dest!: loop_body_continue)

lemma queue_of_start_proc: "queue_of (start_proc p) = queue_of p"
  by (cases p) simp_all


lemma trace_from_chunks_started:
  "trace_from_chunks env g W t \<Longrightarrow> trace_from_chunks env g W (t @ [Started ph i])"
  by (simp add: trace_from_chunks_def)

lemma trace_from_chunks_joined:
  "trace_from_chunks env g W t \<Longrightarrow> trace_from_chunks env g W (t @ [Joined ph i])"
  by (simp add: trace_from_chunks_def)

lemma prov_inv_at_phase:
  assumes inv: "prov_inv env g s" and o: "orch s = AtPhase ph"
  shows "prov_inv env g (orch_step env s)"
proof -
  have gr: "sys_graph s = graph_at env g ph"
    using inv o by (simp add: prov_inv_def)
  show ?thesis
  proof (cases "phase_queries env ph (sys_graph s)")
    case (Inl e)
    with inv o show ?thesis
      by (simp add: orch_step_def prov_inv_def procs_from_chunks_def)
  next
    case (Inr r)
    obtain queries g' where r: "r = (queries, g')" by (cases r)
    have st: "phase_statements env g ph = Inr queries"
      using Inr r gr by (simp add: phase_statements_def)
    have g': "ph = NodePhase \<longrightarrow> g' = graph_at env g EdgePhase"
      using Inr r gr by (auto simp: prod_eq_iff)
    show ?thesis
    proof (cases "make_chunks queries (num_of_processes s)")
      case (Inl e)
      with inv o Inr r show ?thesis
        by (simp add: orch_step_def prov_inv_def procs_from_chunks_def)
    next
      case c: (Inr chunks)
      have step: "orch_step env s =
          s\<lparr>sys_graph := g', orch := Starting ph 0, procs_phase := ph,
            procs := map Created chunks,
            trace := trace s @ [Partitioned ph queries chunks]\<rparr>"
        using o Inr r c by (simp add: orch_step_def)
      have "trace_from_chunks env g (num_of_processes s) (trace s)"
        using inv by (simp add: prov_inv_def)
      then have t: "trace_from_chunks env g (num_of_processes s)
                      (trace s @ [Partitioned ph queries chunks])"
        using st c unfolding trace_from_chunks_def by auto
      have p: "procs_from_chunks env g (orch_step env s)"
        unfolding step procs_from_chunks_def using st c by auto
      have d: "\<forall>g''. graph_due env g (Starting ph 0) = Some g'' \<longrightarrow> g' = g''"
        using g' by (cases ph) simp_all
      show ?thesis
        using p unfolding step using t d by (simp add: prov_inv_def)
    qed
  qed
qed

lemma prov_inv_starting:
  assumes inv: "prov_inv env g s" and o: "orch s = Starting ph i"
  shows "prov_inv env g (orch_step env s)"
proof (cases "i < length (procs s)")
  case True
  have step: "orch_step env s =
      s\<lparr>procs := (procs s)[i := start_proc (procs s ! i)], orch := Starting ph (i + 1),
        trace := trace s @ [Started ph i]\<rparr>"
    using o True by (simp add: orch_step_def)
  have "trace_from_chunks env g (num_of_processes s) (trace s)"
    using inv by (simp add: prov_inv_def)
  then have t: "trace_from_chunks env g (num_of_processes s) (trace s @ [Started ph i])"
    by (rule trace_from_chunks_started)
  have "procs_from_chunks env g s"
    using inv by (simp add: prov_inv_def)
  then have p: "procs_from_chunks env g (orch_step env s)"
    unfolding step procs_from_chunks_def using True
    by (auto simp: nth_list_update queue_of_start_proc split: if_splits)
  have d: "\<forall>g'. graph_due env g (Starting ph (i + 1)) = Some g' \<longrightarrow> sys_graph s = g'"
    using inv o by (cases ph) (simp_all add: prov_inv_def)
  show ?thesis
    using p unfolding step using t d by (simp add: prov_inv_def)
next
  case False
  have step: "orch_step env s = s\<lparr>orch := Joining ph 0\<rparr>"
    using o False by (simp add: orch_step_def)
  have d: "\<forall>g'. graph_due env g (Joining ph 0) = Some g' \<longrightarrow> sys_graph s = g'"
    using inv o by (cases ph) (simp_all add: prov_inv_def)
  show ?thesis
    unfolding step using inv d by (simp add: prov_inv_def procs_from_chunks_def)
qed

lemma prov_inv_joining:
  assumes inv: "prov_inv env g s" and o: "orch s = Joining ph i"
  shows "prov_inv env g (orch_step env s)"
proof (cases "i < length (procs s)")
  case True
  show ?thesis
  proof (cases "is_exited (procs s ! i)")
    case e: True
    have step: "orch_step env s =
        s\<lparr>orch := Joining ph (i + 1), trace := trace s @ [Joined ph i]\<rparr>"
      using o True e by (simp add: orch_step_def)
    have "trace_from_chunks env g (num_of_processes s) (trace s)"
      using inv by (simp add: prov_inv_def)
    then have t: "trace_from_chunks env g (num_of_processes s) (trace s @ [Joined ph i])"
      by (rule trace_from_chunks_joined)
    have d: "\<forall>g'. graph_due env g (Joining ph (i + 1)) = Some g' \<longrightarrow> sys_graph s = g'"
      using inv o by (cases ph) (simp_all add: prov_inv_def)
    show ?thesis
      unfolding step using inv t d by (simp add: prov_inv_def procs_from_chunks_def)
  next
    case False
    with inv o True show ?thesis by (simp add: orch_step_def)
  qed
next
  case False
  have step: "orch_step env s = s\<lparr>orch := next_phase ph\<rparr>"
    using o False by (simp add: orch_step_def)
  have d: "\<forall>g'. graph_due env g (next_phase ph) = Some g' \<longrightarrow> sys_graph s = g'"
    using inv o by (cases ph) (simp_all add: prov_inv_def)
  show ?thesis
    unfolding step using inv d by (simp add: prov_inv_def procs_from_chunks_def)
qed

lemma prov_inv_orch_step:
  assumes "prov_inv env g s"
  shows "prov_inv env g (orch_step env s)"
proof (cases "orch s")
  case (AtPhase ph)
  with assms show ?thesis by (rule prov_inv_at_phase)
next
  case (Starting ph i)
  with assms show ?thesis by (rule prov_inv_starting)
next
  case (Joining ph i)
  with assms show ?thesis by (rule prov_inv_joining)
next
  case Returned
  with assms show ?thesis by (simp add: orch_step_def)
next
  case (Raised e)
  with assms show ?thesis by (simp add: orch_step_def)
qed


lemma prov_inv_process_step:
  assumes inv: "prov_inv env g s"
  shows "prov_inv env g (process_step env j s)"
proof (cases "j < length (procs s)")
  case False
  with inv show ?thesis by (simp add: process_step_idle)
next
  case True
  obtain p' d' evs where
    ps: "proc_step (client env) (host env) (port env) (procs s ! j) (db s) = (p', d', evs)"
    by (cases "proc_step (client env) (host env) (port env) (procs s ! j) (db s)")
  define es where "es = map (Worker (procs_phase s) j) evs
         @ (if is_exited p' \<and> \<not> is_exited (procs s ! j)
            then [Terminated (procs_phase s) j] else [])"
  have step: "process_step env j s =
      s\<lparr>procs := (procs s)[j := p'], db := d', trace := trace s @ es\<rparr>"
    unfolding es_def using True ps by (rule process_step_eq)
  have "procs_from_chunks env g s"
    using inv by (simp add: prov_inv_def)
  with True obtain qs chunks where
    st: "phase_statements env g (procs_phase s) = Inr qs"
    and mc: "make_chunks qs (num_of_processes s) = Inr chunks"
    and len: "length (procs s) = length chunks"
    and sub: "\<forall>k < length (procs s). set (queue_of (procs s ! k)) \<subseteq> set (chunks ! k)"
    unfolding procs_from_chunks_def by auto
  have q': "set (queue_of p') \<subseteq> set (chunks ! j)"
    using proc_step_queue [OF ps] sub True by blast
  have p: "procs_from_chunks env g (process_step env j s)"
    unfolding step procs_from_chunks_def using st mc len sub q' True
    by (auto simp: nth_list_update)
  have new: "\<exists>qs chunks. phase_statements env g ph = Inr qs
               \<and> make_chunks qs (num_of_processes s) = Inr chunks
               \<and> k < length chunks \<and> q \<in> set (chunks ! k)"
    if "Worker ph k (Execute q) \<in> set es" for ph k q
  proof -
    from that have ph: "ph = procs_phase s" and k: "k = j" and ev: "Execute q \<in> set evs"
      by (auto simp: es_def split: if_splits)
    from proc_step_events [OF ps ev] sub True have "q \<in> set (chunks ! j)"
      by blast
    with st mc len True ph k show ?thesis by auto
  qed
  have nopart: "Partitioned ph qs' chunks' \<notin> set es" for ph qs' chunks'
    by (auto simp: es_def)
  have "trace_from_chunks env g (num_of_processes s) (trace s)"
    using inv by (simp add: prov_inv_def)
  then have t: "trace_from_chunks env g (num_of_processes s) (trace s @ es)"
    unfolding trace_from_chunks_def using new nopart by auto
  have d: "\<forall>g'. graph_due env g (orch s) = Some g' \<longrightarrow> sys_graph s = g'"
    using inv by (simp add: prov_inv_def)
  show ?thesis
    using p unfolding step using t d by (simp add: prov_inv_def)
qed

lemma prov_inv_init: "prov_inv env g (init env g d)"
  by (simp add: prov_inv_def init_def trace_from_chunks_def procs_from_chunks_def)

lemma prov_inv_run: "prov_inv env g s \<Longrightarrow> prov_inv env g (run env sched s)"
proof (induction sched rule: rev_induct)
  case Nil
  then show ?case by (simp add: run_Nil)
next
  case (snoc t sched)
  then have "prov_inv env g (run env sched s)" by simp
  then have "prov_inv env g (sys_step env t (run env sched s))"
    by (cases t) (simp_all add: prov_inv_orch_step prov_inv_process_step)
  then show ?case by (simp add: run_snoc)
qed

lemma reachable_trace_from_chunks:
  "trace_from_chunks env g (cpu_count env div 2) (trace (run env sched (init env g d)))"
proof -
  have "prov_inv env g (run env sched (init env g d))"
    using prov_inv_init by (rule prov_inv_run)
  then have "trace_from_chunks env g (num_of_processes (run env sched (init env g d)))
               (trace (run env sched (init env g d)))"
    by (simp add: prov_inv_def)
  then show ?thesis by (simp add: init_def)
qed

lemma set_py_slice: "set (py_slice xs a b) \<subseteq> set xs"
  unfolding py_slice_def by (meson set_drop_subset set_take_subset subset_trans)

lemma make_chunks_subset:
  assumes "make_chunks qs W = Inr chunks" "j < length chunks"
  shows "set (chunks ! j) \<subseteq> set qs"
proof -
  from assms obtain a b where "chunks ! j = py_slice qs a b"
    by (auto simp: make_chunks_def chunk_size_def split: if_splits)
  then show ?thesis by (simp add: set_py_slice)
qed










subsection \<open>A phase with fewer statements than workers\<close>

lemma run_append: "run env (a @ b) s = run env b (run env a s)"
  by (simp add: run_def)

lemma short_list_chunks:
  assumes "length qs < W"
  shows "chunk_size qs W = Inr 0" and "make_chunks qs W = Inr (replicate W [])"
proof -
  from assms have W: "W \<noteq> 0" by auto
  with assms show c: "chunk_size qs W = Inr 0"
    by (simp add: chunk_size_def)
  have "map (\<lambda>i. py_slice qs (i * 0) (0 * (i + 1))) [0..<W] = replicate W []"
    by (simp add: py_slice_def map_replicate_const)
  with c show "make_chunks qs W = Inr (replicate W [])"
    by (simp add: make_chunks_def)
qed

lemma start_loop:
  assumes "orch s = Starting ph i"
    and "procs s = replicate i (Connecting []) @ replicate m (Created [])"
  shows "orch (run env (replicate (m + 1) Orchestrator) s) = Joining ph 0
       \<and> procs (run env (replicate (m + 1) Orchestrator) s) = replicate (i + m) (Connecting [])"
  using assms
proof (induction m arbitrary: s i)
  case 0
  then show ?case
    by (simp add: run_def orch_step_def)
next
  case (Suc m)
  let ?s = "orch_step env s"
  have lt: "i < length (procs s)" using Suc.prems by simp
  have nth: "procs s ! i = Created []"
    using Suc.prems by (simp add: nth_append)
  have o: "orch ?s = Starting ph (i + 1)"
    using Suc.prems lt by (simp add: orch_step_def)
  have "(procs s)[i := Connecting []]
          = replicate i (Connecting []) @ Connecting [] # replicate m (Created [])"
    using Suc.prems(2) by (simp add: list_update_append)
  then have p: "procs ?s = replicate (i + 1) (Connecting []) @ replicate m (Created [])"
    using Suc.prems(1) lt nth by (simp add: orch_step_def replicate_append_same)
  from Suc.IH [OF o p] show ?case
    by (simp add: run_Cons)
qed

lemma connecting_two_turns:
  assumes "k < length (procs s)" "procs s ! k = Connecting []"
  shows "orch (process_step env k (process_step env k s)) = orch s
       \<and> (\<exists>r. procs (process_step env k (process_step env k s)) = (procs s)[k := Exited r])"
proof (cases "connect (client env) (host env) (port env) (db s)")
  case (Pair r d1)
  show ?thesis
  proof (cases r)
    case None
    with Pair assms show ?thesis
      by (auto simp: process_step_def)
  next
    case (Some e)
    with Pair assms show ?thesis
      by (auto simp: process_step_def)
  qed
qed

lemma worker_turns:
  assumes "orch s = Joining ph 0" "length (procs s) = W" "k \<le> W"
    and "\<forall>j < W. procs s ! j = Connecting []"
  shows "orch (run env (concat (map (\<lambda>j. replicate 2 (Process j)) [0..<k])) s) = Joining ph 0
       \<and> length (procs (run env (concat (map (\<lambda>j. replicate 2 (Process j)) [0..<k])) s)) = W
       \<and> (\<forall>j < k. is_exited
              (procs (run env (concat (map (\<lambda>j. replicate 2 (Process j)) [0..<k])) s) ! j))
       \<and> (\<forall>j. k \<le> j \<and> j < W \<longrightarrow>
              procs (run env (concat (map (\<lambda>j. replicate 2 (Process j)) [0..<k])) s) ! j
                = Connecting [])"
  using assms(3)
proof (induction k)
  case 0
  with assms show ?case by (simp add: run_Nil)
next
  case (Suc k)
  let ?s = "run env (concat (map (\<lambda>j. replicate 2 (Process j)) [0..<k])) s"
  have ih: "orch ?s = Joining ph 0" "length (procs ?s) = W"
    "\<forall>j < k. is_exited (procs ?s ! j)"
    "\<forall>j. k \<le> j \<and> j < W \<longrightarrow> procs ?s ! j = Connecting []"
    using Suc by simp_all
  have k: "k < length (procs ?s)" "procs ?s ! k = Connecting []"
    using ih Suc.prems by simp_all
  let ?s2 = "process_step env k (process_step env k ?s)"
  from connecting_two_turns [OF k, of env] obtain r where
    o: "orch ?s2 = orch ?s" and p: "procs ?s2 = (procs ?s)[k := Exited r]"
    by blast
  have run: "run env (concat (map (\<lambda>j. replicate 2 (Process j)) [0..<Suc k])) s = ?s2"
    by (simp add: run_append run_Cons run_Nil numeral_2_eq_2)
  show ?case
    unfolding run using o p ih k(1)
    by (auto simp: nth_list_update less_Suc_eq)
qed

lemma join_loop:
  assumes "orch s = Joining ph i" "length (procs s) = i + m"
    and "\<forall>j < length (procs s). is_exited (procs s ! j)"
  shows "orch (run env (replicate (m + 1) Orchestrator) s) = next_phase ph"
  using assms
proof (induction m arbitrary: s i)
  case 0
  then show ?case
    by (simp add: run_def orch_step_def)
next
  case (Suc m)
  let ?s = "orch_step env s"
  have step: "?s = s\<lparr>orch := Joining ph (i + 1), trace := trace s @ [Joined ph i]\<rparr>"
    using Suc.prems by (simp add: orch_step_def)
  have "orch (run env (replicate (m + 1) Orchestrator) ?s) = next_phase ph"
    using Suc.prems by (intro Suc.IH [of _ "i + 1"]) (simp_all add: step)
  then show ?case
    by (simp add: run_Cons)
qed

lemma short_phase_run:
  assumes o: "orch s = AtPhase ph"
    and q: "phase_queries env ph (sys_graph s) = Inr (qs, g')"
    and short: "length qs < num_of_processes s"
  shows "orch (run env (phase_turns (num_of_processes s) 2) s) = next_phase ph"
proof -
  let ?W = "num_of_processes s"
  let ?s1 = "orch_step env s"
  have s1: "orch ?s1 = Starting ph 0"
    "procs ?s1 = replicate 0 (Connecting []) @ replicate ?W (Created [])"
    using o q short_list_chunks(2) [OF short] by (simp_all add: orch_step_def)
  let ?s2 = "run env (replicate (?W + 1) Orchestrator) ?s1"
  from start_loop [OF s1, of env] have s2: "orch ?s2 = Joining ph 0"
    "procs ?s2 = replicate ?W (Connecting [])"
    by simp_all
  let ?s3 = "run env (concat (map (\<lambda>j. replicate 2 (Process j)) [0..<?W])) ?s2"
  have "orch ?s3 = Joining ph 0 \<and> length (procs ?s3) = ?W
          \<and> (\<forall>j < ?W. is_exited (procs ?s3 ! j))
          \<and> (\<forall>j. ?W \<le> j \<and> j < ?W \<longrightarrow> procs ?s3 ! j = Connecting [])"
    using s2 by (intro worker_turns) simp_all
  then have s3: "orch ?s3 = Joining ph 0" "length (procs ?s3) = 0 + ?W"
    "\<forall>j < length (procs ?s3). is_exited (procs ?s3 ! j)"
    by simp_all
  have "orch (run env (replicate (?W + 1) Orchestrator) ?s3) = next_phase ph"
    using s3 by (rule join_loop)
  then show ?thesis
    by (simp add: phase_turns_def run_append run_Cons)
qed


lemma make_chunks_error:
  "make_chunks qs W = Inl e \<Longrightarrow> W = 0 \<and> e = ZeroDivisionError"
  by (auto simp: make_chunks_def chunk_size_def split: if_splits)

lemma raise_inv_orch_step:
  assumes p: "prov_inv env g s" and r: "raise_inv env g s"
  shows "raise_inv env g (orch_step env s)"
proof (cases "orch s")
  case (AtPhase ph)
  have gr: "sys_graph s = graph_at env g ph"
    using p AtPhase by (simp add: prov_inv_def)
  show ?thesis
  proof (cases "phase_queries env ph (sys_graph s)")
    case (Inl e)
    then have "ph = EdgePhase" by (cases ph) simp_all
    with Inl gr have "phase_statements env g EdgePhase = Inl e"
      by (simp add: phase_statements_def)
    with AtPhase Inl show ?thesis
      by (simp add: orch_step_def raise_inv_def)
  next
    case (Inr x)
    obtain queries g' where x: "x = (queries, g')" by (cases x)
    show ?thesis
    proof (cases "make_chunks queries (num_of_processes s)")
      case (Inl e)
      from make_chunks_error [OF this] AtPhase Inr x Inl show ?thesis
        by (simp add: orch_step_def raise_inv_def)
    next
      case c: (Inr chunks)
      with AtPhase Inr x show ?thesis
        by (simp add: orch_step_def raise_inv_def)
    qed
  qed
next
  case (Starting ph i)
  then show ?thesis
    by (simp add: orch_step_def raise_inv_def)
next
  case (Joining ph i)
  then show ?thesis
    by (cases ph) (simp_all add: orch_step_def raise_inv_def)
next
  case Returned
  then show ?thesis by (simp add: orch_step_def raise_inv_def)
next
  case (Raised e)
  with r show ?thesis by (simp add: orch_step_def)
qed

lemma raise_inv_process_step:
  assumes "raise_inv env g s"
  shows "raise_inv env g (process_step env j s)"
  using assms by (simp add: process_step_def raise_inv_def split: prod.splits)

lemma raise_inv_run:
  "prov_inv env g (run env sched (init env g d)) \<and> raise_inv env g (run env sched (init env g d))"
proof (induction sched rule: rev_induct)
  case Nil
  show ?case
    by (simp add: run_Nil prov_inv_init) (simp add: raise_inv_def init_def)
next
  case (snoc t sched)
  let ?s = "run env sched (init env g d)"
  have p: "prov_inv env g ?s" and r: "raise_inv env g ?s"
    using snoc by simp_all
  have "prov_inv env g (sys_step env t ?s)"
    using p by (cases t) (simp_all add: prov_inv_orch_step prov_inv_process_step)
  moreover have "raise_inv env g (sys_step env t ?s)"
    using p r by (cases t) (simp_all add: raise_inv_orch_step raise_inv_process_step)
  ultimately show ?case by (simp add: run_snoc)
qed

text \<open>
  Claim C10, as amended. When the statement list a phase materializes has a length \<open>L\<close>
  with \<open>0 < L < W\<close>, the chunk size is 0 and every worker is given the empty slice.
  Under every schedule no statement of that phase is executed. The phase ends without
  an error or a report: from the head of the phase, the schedule that starts the
  workers, gives each of them two turns (to connect and to find its list empty) and
  joins them brings the orchestrator past the phase, so the call has returned
  normally after the edge phase and stands at the head of the edge phase after the
  node phase. Whatever the schedule, the only exception the call can raise is one
  raised by the edge generator itself. The whole call returns normally under that
  schedule when both lists are shorter than \<open>W\<close>; after a short node phase the
  workers of the edge phase decide whether it returns.
\<close>

theorem short_phase_dropped:
  assumes "phase_statements env g ph = Inr qs"
    and "0 < length qs" and "length qs < cpu_count env div 2"
  shows "chunk_size qs (cpu_count env div 2) = Inr 0
       \<and> make_chunks qs (cpu_count env div 2) = Inr (replicate (cpu_count env div 2) [])
       \<and> (\<forall>j q. Worker ph j (Execute q) \<notin> set (trace (run env sched (init env g d))))
       \<and> (orch (run env sched (init env g d)) = AtPhase ph \<longrightarrow>
            orch (run env (sched @ phase_turns (cpu_count env div 2) 2) (init env g d))
              = next_phase ph)
       \<and> (\<forall>e. orch (run env sched (init env g d)) = Raised e \<longrightarrow>
            phase_statements env g EdgePhase = Inl e)
       \<and> ((\<exists>qn. phase_statements env g NodePhase = Inr qn \<and> length qn < cpu_count env div 2)
            \<and> (\<exists>qe. phase_statements env g EdgePhase = Inr qe
                  \<and> length qe < cpu_count env div 2) \<longrightarrow>
            outcome (run env (phase_turns (cpu_count env div 2) 2
                                @ phase_turns (cpu_count env div 2) 2) (init env g d))
              = Some None)"
proof -
  let ?W = "cpu_count env div 2"
  let ?s = "run env sched (init env g d)"
  have c1: "chunk_size qs ?W = Inr 0" and c2: "make_chunks qs ?W = Inr (replicate ?W [])"
    using assms(3) by (rule short_list_chunks)+
  have c3: "Worker ph j (Execute q) \<notin> set (trace ?s)" for j q
  proof
    assume "Worker ph j (Execute q) \<in> set (trace ?s)"
    with reachable_trace_from_chunks [of env g sched d] obtain qs' chunks where
      "phase_statements env g ph = Inr qs'" "make_chunks qs' ?W = Inr chunks"
      "j < length chunks" "q \<in> set (chunks ! j)"
      unfolding trace_from_chunks_def by blast
    with assms(1) c2 show False by auto
  qed
  have live: "orch (run env (sc @ phase_turns ?W 2) (init env g d)) = next_phase ph'"
    if st: "phase_statements env g ph' = Inr qs'" and short: "length qs' < ?W"
      and o: "orch (run env sc (init env g d)) = AtPhase ph'"
    for ph' qs' sc
  proof -
    let ?r = "run env sc (init env g d)"
    have W: "num_of_processes ?r = ?W"
      by (simp add: init_def)
    have "prov_inv env g ?r"
      using raise_inv_run [of env g sc d] by simp
    then have "sys_graph ?r = graph_at env g ph'"
      using o by (simp add: prov_inv_def)
    with st obtain g' where "phase_queries env ph' (sys_graph ?r) = Inr (qs', g')"
      by (auto simp: phase_statements_def split: sum.splits)
    from short_phase_run [OF o this] short W show ?thesis
      by (simp add: run_append)
  qed
  have c4: "orch (run env (sched @ phase_turns ?W 2) (init env g d)) = next_phase ph"
    if "orch ?s = AtPhase ph"
    using assms(1,3) that by (rule live)
  have rinv: "raise_inv env g ?s"
    using raise_inv_run [of env g sched d] by simp
  have W: "num_of_processes ?s = ?W"
    by (simp add: init_def)
  have c5: "phase_statements env g EdgePhase = Inl e" if "orch ?s = Raised e" for e
    using rinv that assms(3) W by (auto simp: raise_inv_def)
  have c6: "outcome (run env (phase_turns ?W 2 @ phase_turns ?W 2) (init env g d)) = Some None"
    if n: "phase_statements env g NodePhase = Inr qn" "length qn < ?W"
      and e: "phase_statements env g EdgePhase = Inr qe" "length qe < ?W"
    for qn qe
  proof -
    have "orch (run env [] (init env g d)) = AtPhase NodePhase"
      by (simp add: run_Nil init_def)
    with n have "orch (run env ([] @ phase_turns ?W 2) (init env g d)) = next_phase NodePhase"
      by (rule live)
    then have "orch (run env (phase_turns ?W 2) (init env g d)) = AtPhase EdgePhase"
      by simp
    with e have "orch (run env (phase_turns ?W 2 @ phase_turns ?W 2) (init env g d))
                   = next_phase EdgePhase"
      by (rule live)
    then show ?thesis
      by (simp add: outcome_def)
  qed
  from c1 c2 c3 c4 c5 c6 show ?thesis by blast
qed

theorem short_phase_dropped_witness:
  "phase_statements (local_setting 4) loop_graph EdgePhase
     = Inr [''MATCH (n {id: 0}), (m {id: 0}) CREATE (n)-[:TO ]->(m);'']
   \<and> 0 < length [''MATCH (n {id: 0}), (m {id: 0}) CREATE (n)-[:TO ]->(m);'']
   \<and> length [''MATCH (n {id: 0}), (m {id: 0}) CREATE (n)-[:TO ]->(m);'']
       < cpu_count (local_setting 4) div 2
   \<and> orch (run (local_setting 4) (phase_turns 2 2) (init (local_setting 4) loop_graph ()))
       = AtPhase EdgePhase
   \<and> make_chunks [''MATCH (n {id: 0}), (m {id: 0}) CREATE (n)-[:TO ]->(m);''] 2
       = Inr [[], []]
   \<and> outcome (run (local_setting 4) (phase_turns 2 2 @ phase_turns 2 2)
                (init (local_setting 4) loop_graph ())) = Some None
   \<and> Worker EdgePhase 0 (Execute ''MATCH (n {id: 0}), (m {id: 0}) CREATE (n)-[:TO ]->(m);'')
       \<notin> set (trace (run (local_setting 4) (phase_turns 2 2 @ phase_turns 2 2)
                         (init (local_setting 4) loop_graph ())))"
proof -
  have h1: "phase_statements (local_setting 4) loop_graph EdgePhase
     = Inr [''MATCH (n {id: 0}), (m {id: 0}) CREATE (n)-[:TO ]->(m);'']"
    by code_simp
  have h2: "0 < length [''MATCH (n {id: 0}), (m {id: 0}) CREATE (n)-[:TO ]->(m);'']"
    by simp
  have h3: "length [''MATCH (n {id: 0}), (m {id: 0}) CREATE (n)-[:TO ]->(m);'']
       < cpu_count (local_setting 4) div 2"
    by (simp add: local_setting_def)
  have h4: "orch (run (local_setting 4) (phase_turns 2 2)
                   (init (local_setting 4) loop_graph ())) = AtPhase EdgePhase"
    by code_simp
  have w: "cpu_count (local_setting 4) div 2 = 2"
    by (simp add: local_setting_def)
  have r: "replicate 2 ([]::string list) = [[], []]"
    by (simp add: numeral_2_eq_2)
  note a = short_phase_dropped [OF h1 h2 h3, of "phase_turns 2 2" "()", unfolded w r]
  note b = short_phase_dropped [OF h1 h2 h3, of "phase_turns 2 2 @ phase_turns 2 2" "()",
             unfolded w r]
  from a h4 have ret: "orch (run (local_setting 4) (phase_turns 2 2 @ phase_turns 2 2)
                (init (local_setting 4) loop_graph ())) = Returned"
    by simp
  from a have ch: "make_chunks [''MATCH (n {id: 0}), (m {id: 0}) CREATE (n)-[:TO ]->(m);''] 2
       = Inr [[], []]"
    by simp
  from b have ex: "Worker EdgePhase 0
       (Execute ''MATCH (n {id: 0}), (m {id: 0}) CREATE (n)-[:TO ]->(m);'')
       \<notin> set (trace (run (local_setting 4) (phase_turns 2 2 @ phase_turns 2 2)
                         (init (local_setting 4) loop_graph ())))"
    by blast
  from h1 h2 h3 h4 ch ret ex show ?thesis
    by (simp add: outcome_def)
qed

lemma alive_start_proc: "alive p \<Longrightarrow> alive (start_proc p)"
  by (cases p) (simp_all add: alive_def)

lemma proc_step_alive:
  assumes con: "\<And>h p d. fst (connect c h p d) = None"
    and exe: "\<And>q d. \<exists>m. fst (execute c q d) = Some (DatabaseError m)"
    and a: "alive pr" and st: "proc_step c h p pr d = (pr', d', evs)"
  shows "alive pr'"
proof (cases pr)
  case (Created qs)
  with a st show ?thesis by auto
next
  case (Connecting qs)
  obtain d1 where "connect c h p d = (None, d1)"
    using con [of h p d] by (cases "connect c h p d") simp
  with a st Connecting show ?thesis
    by (auto simp: alive_def)
next
  case (Looping qs)
  with a have ne: "qs \<noteq> []" by (simp add: alive_def)
  obtain m d1 where "execute c (last qs) d = (Some (DatabaseError m), d1)"
    using exe [of "last qs" d] by (cases "execute c (last qs) d") auto
  with ne have "loop_body c qs d =
      (Continue (butlast qs @ [last qs]), d1,
       [Execute (last qs), Warning (''Ignoring database error: '' @ m)])"
    by (simp add: loop_body_def)
  with st Looping ne show ?thesis
    by (auto simp: alive_def)
next
  case (Exited r)
  with a show ?thesis by (simp add: alive_def)
qed

lemma first_chunk_not_empty:
  assumes "make_chunks qs W = Inr chunks" "0 < W" "W \<le> length qs"
  shows "0 < length chunks \<and> chunks ! 0 \<noteq> []"
proof -
  have cs: "0 < length qs div W"
    using assms(2,3) by (simp add: div_greater_zero_iff)
  have "chunks = map (\<lambda>i. py_slice qs (i * (length qs div W)) (length qs div W * (i + 1)))
                  [0..<W]"
    using assms(1,2) by (simp add: make_chunks_def chunk_size_def)
  then have l: "length chunks = W"
    and c: "chunks ! 0 = py_slice qs 0 (length qs div W)"
    using assms(2) by simp_all
  have "length qs div W \<le> length qs" by simp
  then have "length (py_slice qs 0 (length qs div W)) = length qs div W"
    by (simp add: py_slice_def)
  with cs c have "chunks ! 0 \<noteq> []" by auto
  with l assms(2) show ?thesis by simp
qed

lemma blocked_orch_step:
  assumes b: "blocked_at (orch s) (procs s)" and p: "prov_inv env g s"
    and W: "0 < num_of_processes s"
    and qe: "phase_statements env g EdgePhase = Inr qe" "num_of_processes s \<le> length qe"
  shows "blocked_at (orch (orch_step env s)) (procs (orch_step env s))"
proof (cases "orch s")
  case (AtPhase ph)
  show ?thesis
  proof (cases ph)
    case NodePhase
    with AtPhase show ?thesis
      by (simp add: orch_step_def split: sum.splits prod.splits)
  next
    case EdgePhase
    have "sys_graph s = graph_at env g EdgePhase"
      using p AtPhase EdgePhase by (simp add: prov_inv_def)
    with qe(1) obtain g' where q: "phase_queries env EdgePhase (sys_graph s) = Inr (qe, g')"
      by (auto simp: phase_statements_def split: sum.splits)
    show ?thesis
    proof (cases "make_chunks qe (num_of_processes s)")
      case (Inl e)
      with AtPhase EdgePhase q show ?thesis
        by (simp add: orch_step_def)
    next
      case (Inr chunks)
      from first_chunk_not_empty [OF Inr W qe(2)]
      have "0 < length chunks" "chunks ! 0 \<noteq> []" by simp_all
      with AtPhase EdgePhase q Inr show ?thesis
        by (simp add: orch_step_def alive_def)
    qed
  qed
next
  case (Starting ph i)
  show ?thesis
  proof (cases ph)
    case NodePhase
    with Starting show ?thesis by (simp add: orch_step_def)
  next
    case EdgePhase
    with b Starting have l: "0 < length (procs s)" and a: "alive (procs s ! 0)"
      by simp_all
    show ?thesis
    proof (cases "i < length (procs s)")
      case True
      with Starting EdgePhase l a show ?thesis
        by (cases i) (simp_all add: orch_step_def alive_start_proc)
    next
      case False
      with Starting EdgePhase l a show ?thesis
        by (simp add: orch_step_def)
    qed
  qed
next
  case (Joining ph i)
  show ?thesis
  proof (cases ph)
    case NodePhase
    with Joining show ?thesis by (simp add: orch_step_def)
  next
    case EdgePhase
    with b Joining have "i = 0" "0 < length (procs s)" "alive (procs s ! 0)"
      by simp_all
    with Joining EdgePhase show ?thesis
      by (simp add: orch_step_def alive_def)
  qed
next
  case Returned
  with b show ?thesis by simp
next
  case (Raised e)
  then show ?thesis by (simp add: orch_step_def)
qed

lemma blocked_process_step:
  assumes con: "\<And>h p d. fst (connect (client env) h p d) = None"
    and exe: "\<And>q d. \<exists>m. fst (execute (client env) q d) = Some (DatabaseError m)"
    and b: "blocked_at (orch s) (procs s)"
  shows "blocked_at (orch (process_step env j s)) (procs (process_step env j s))"
proof (cases "j < length (procs s)")
  case False
  with b show ?thesis by (simp add: process_step_idle)
next
  case True
  obtain p' d' evs where
    ps: "proc_step (client env) (host env) (port env) (procs s ! j) (db s) = (p', d', evs)"
    by (cases "proc_step (client env) (host env) (port env) (procs s ! j) (db s)")
  have o: "orch (process_step env j s) = orch s"
    and pr: "procs (process_step env j s) = (procs s)[j := p']"
    using process_step_eq [OF True ps] by simp_all
  have keep: "alive ((procs s)[j := p'] ! 0)" if "alive (procs s ! 0)"
  proof (cases j)
    case 0
    with that have "alive p'"
      using proc_step_alive [OF con exe _ ps] by simp
    with 0 True show ?thesis by simp
  next
    case (Suc k)
    with that show ?thesis by simp
  qed
  show ?thesis
  proof (cases "orch s")
    case (Starting ph i)
    with b keep show ?thesis
      unfolding o pr by (cases ph) simp_all
  next
    case (Joining ph i)
    with b keep show ?thesis
      unfolding o pr by (cases ph) simp_all
  next
    case (AtPhase ph)
    then show ?thesis unfolding o pr by simp
  next
    case Returned
    with b show ?thesis by simp
  next
    case (Raised e)
    then show ?thesis unfolding o pr by simp
  qed
qed

lemma never_returns:
  assumes con: "\<And>h p d. fst (connect (client env) h p d) = None"
    and exe: "\<And>q d. \<exists>m. fst (execute (client env) q d) = Some (DatabaseError m)"
    and W: "0 < cpu_count env div 2"
    and qe: "phase_statements env g EdgePhase = Inr qe" "cpu_count env div 2 \<le> length qe"
  shows "orch (run env sched (init env g d)) \<noteq> Returned"
proof -
  have "blocked_at (orch (run env sched (init env g d))) (procs (run env sched (init env g d)))"
  proof (induction sched rule: rev_induct)
    case Nil
    show ?case by (simp add: run_Nil init_def)
  next
    case (snoc t sched)
    let ?s = "run env sched (init env g d)"
    have n: "num_of_processes ?s = cpu_count env div 2"
      by (simp add: init_def)
    have p: "prov_inv env g ?s"
      using prov_inv_init by (rule prov_inv_run)
    show ?case
    proof (cases t)
      case Orchestrator
      have "blocked_at (orch (orch_step env ?s)) (procs (orch_step env ?s))"
        using snoc p W qe unfolding n [symmetric] by (rule blocked_orch_step)
      with Orchestrator show ?thesis by (simp add: run_snoc)
    next
      case (Process j)
      have "blocked_at (orch (process_step env j ?s)) (procs (process_step env j ?s))"
        using con exe snoc by (rule blocked_process_step)
      with Process show ?thesis by (simp add: run_snoc)
    qed
  qed
  then show ?thesis by auto
qed


text \<open>
  Claim C10 as stated fails: with two nodes, three edges, three workers and a database
  that rejects every statement, the node phase is a short one, and the call returns
  under no schedule, since the first edge worker retries its statement for ever and
  is never joined.
\<close>

theorem short_phase_counterexample:
  "phase_statements (busy_setting 6) pair_graph NodePhase
     = Inr [''CREATE ( {id: 0});'', ''CREATE ( {id: 1});'']
   \<and> cpu_count (busy_setting 6) div 2 = 3
   \<and> (\<forall>sched. outcome (run (busy_setting 6) sched (init (busy_setting 6) pair_graph ()))
         \<noteq> Some None)"
proof -
  have n: "phase_statements (busy_setting 6) pair_graph NodePhase
     = Inr [''CREATE ( {id: 0});'', ''CREATE ( {id: 1});'']"
    by code_simp
  have e: "phase_statements (busy_setting 6) pair_graph EdgePhase
     = Inr [''MATCH (n {id: 0}), (m {id: 1}) CREATE (n)-[:TO ]->(m);'',
            ''MATCH (n {id: 0}), (m {id: 0}) CREATE (n)-[:TO ]->(m);'',
            ''MATCH (n {id: 1}), (m {id: 1}) CREATE (n)-[:TO ]->(m);'']"
    by code_simp
  have w: "cpu_count (busy_setting 6) div 2 = 3"
    by (simp add: busy_setting_def)
  have con: "fst (connect (client (busy_setting 6)) h p d) = None" for h p d
    by (simp add: busy_setting_def busy_client_def)
  have exe: "\<exists>m. fst (execute (client (busy_setting 6)) q d) = Some (DatabaseError m)" for q d
    by (simp add: busy_setting_def busy_client_def)
  have "orch (run (busy_setting 6) sched (init (busy_setting 6) pair_graph ())) \<noteq> Returned"
    for sched
    using con exe _ e by (rule never_returns) (simp_all add: w)
  then have "outcome (run (busy_setting 6) sched (init (busy_setting 6) pair_graph ()))
         \<noteq> Some None" for sched
    by (simp add: outcome_def split: orch.splits)
  with n w show ?thesis by simp
qed

subsection \<open>A worker process of the system is \<open>_insert_queries\<close>\<close>

text \<open>
  What a process of the system does in its turns, taken alone, is what
  \<open>insert_queries\<close> returns: a process that has ended after some number of turns
  has ended with the exception, the database and the log of the function.
\<close>

lemma proc_turns_exited:
  "proc_turns c h p n (Exited r, d, log) = (Exited r, d, log)"
  by (induction n) simp_all

lemma proc_turns_insert_loop:
  assumes "proc_turns c h p n (Looping qs, d, log) = (Exited r, d', log')"
  shows "insert_loop c qs d log = Some (r, d', log')"
  using assms
proof (induction n arbitrary: qs d log)
  case 0
  then show ?case by simp
next
  case (Suc n)
  show ?case
  proof (cases "length qs > 0")
    case False
    with Suc.prems show ?thesis
      by (subst insert_loop.simps) (simp add: proc_turns_exited)
  next
    case True
    obtain fl d1 evs where b: "loop_body c qs d = (fl, d1, evs)"
      by (cases "loop_body c qs d")
    show ?thesis
    proof (cases fl)
      case (Continue qs')
      with Suc.prems True b
      have "proc_turns c h p n (Looping qs', d1, log @ evs) = (Exited r, d', log')"
        by simp
      then have "insert_loop c qs' d1 (log @ evs) = Some (r, d', log')"
        by (rule Suc.IH)
      with True b Continue show ?thesis
        by (subst insert_loop.simps) simp
    next
      case Break
      with Suc.prems True b show ?thesis
        by (subst insert_loop.simps) (simp add: proc_turns_exited)
    next
      case (Raise e)
      with Suc.prems True b show ?thesis
        by (subst insert_loop.simps) (simp add: proc_turns_exited)
    qed
  qed
qed

lemma proc_turns_insert_queries:
  assumes "proc_turns c h p n (Connecting qs, d, []) = (Exited r, d', log')"
  shows "insert_queries c qs h p d = Some (r, d', log')"
proof (cases n)
  case 0
  with assms show ?thesis by simp
next
  case (Suc m)
  obtain e d1 where k: "connect c h p d = (e, d1)"
    by (cases "connect c h p d")
  show ?thesis
  proof (cases e)
    case None
    with assms Suc k
    have "proc_turns c h p m (Looping qs, d1, [Connect h p]) = (Exited r, d', log')"
      by simp
    then have "insert_loop c qs d1 [Connect h p] = Some (r, d', log')"
      by (rule proc_turns_insert_loop)
    with k None show ?thesis
      by (simp add: insert_queries_def)
  next
    case (Some x)
    with assms Suc k show ?thesis
      by (auto simp: insert_queries_def proc_turns_exited)
  qed
qed

end
